theory Spec2Isabelle
  imports Main "HOL-Library.Word" "HOL-Library.Multiset"
begin

section \<open>ConcurrentMap: a lock-striped map over integral keys\<close>

text \<open>
  The embedding follows \<^verbatim>\<open>src/ConcurrentMap.cpp\<close>. The class template
  \<^verbatim>\<open>ConcurrentMap<Key, Value>\<close> has two template arguments. What the code uses of
  them is: whether the integral \<^verbatim>\<open>Key\<close> is signed (it decides how
  \<^verbatim>\<open>static_cast<uint64_t>(key)\<close> widens), the width of \<^verbatim>\<open>Key\<close> (the type
  \<open>'k word\<close>), and the value-initialised \<^verbatim>\<open>Value()\<close> that
  \<^verbatim>\<open>std::map::operator[]\<close> inserts for an absent key.
\<close>

record 'v template_args =
  Key_is_signed :: bool
  Value_init :: 'v

subsection \<open>Data\<close>

text \<open>
  \<^verbatim>\<open>struct Bucket { std::mutex mutex; std::map<Key, Value> map; }\<close>.
  The mutex is its locked flag; the ordered map is a partial function from keys to
  values (none of the operations depends on the iteration order of one bucket, since the
  keys of one \<^verbatim>\<open>std::map\<close> are unique). The field \<^verbatim>\<open>map\<close> is \<open>map'\<close> here and the
  member \<^verbatim>\<open>buckets_\<close> is \<open>buckets\<close>, the names HOL leaves free.
\<close>

record ('k, 'v) Bucket =
  mutex :: bool
  map' :: "'k \<rightharpoonup> 'v"

text \<open>\<^verbatim>\<open>std::vector<Bucket> buckets_\<close> is the only member of the class.\<close>

record ('k, 'v) ConcurrentMap =
  buckets :: "('k, 'v) Bucket list"

text \<open>
  \<^verbatim>\<open>struct Access { std::lock_guard<std::mutex> guard; Value& ref_to_value; }\<close>.
  The guard is the index of the bucket whose mutex it holds; the reference is the address
  of the slot it refers to: a bucket and a key of that bucket's map.
\<close>

record 'k Access =
  guard :: nat
  ref_to_value :: "nat \<times> 'k"

text \<open>
  What the C++ leaves undefined, or answers by never returning, is a value of the model:
  a remainder by zero, an index outside the vector, locking a mutex that is already held
  when no other thread can release it, a reference to a slot that is not there, and the
  overflow of a signed \<^verbatim>\<open>int\<close>.
\<close>

datatype fault = ModuloByZero | IndexOutOfRange | Deadlock | DanglingReference | SignedOverflow

subsection \<open>Partition selection\<close>

text \<open>
  \<^verbatim>\<open>static_cast<uint64_t>(key)\<close>: a signed key is sign-extended (or truncated) to 64
  bits, an unsigned key is zero-extended (or truncated).
\<close>

definition static_cast_uint64 :: "bool \<Rightarrow> 'k::len word \<Rightarrow> 64 word" where
  "static_cast_uint64 is_signed key = (if is_signed then scast key else ucast key)"

text \<open>
  \<^verbatim>\<open>return buckets_[static_cast<uint64_t>(key) % buckets_.size()];\<close>
  The result \<^verbatim>\<open>Bucket&\<close> is the index of the bucket. \<^verbatim>\<open>buckets_.size()\<close> is a
  \<^verbatim>\<open>size_t\<close>, so the remainder is computed on 64-bit unsigned words.
\<close>

definition GetBucket ::
  "'v template_args \<Rightarrow> 'k::len word \<Rightarrow> ('k word, 'v) ConcurrentMap \<Rightarrow> fault + nat" where
  "GetBucket T key cm =
     (let size = (word_of_nat (length (buckets cm)) :: 64 word) in
      if size = 0 then Inl ModuloByZero
      else let i = unat (static_cast_uint64 (Key_is_signed T) key mod size) in
        if i < length (buckets cm) then Inr i else Inl IndexOutOfRange)"

text \<open>
  The spec's words for the same function: the key is converted to an unsigned 64-bit
  representation, negative keys wrapping, and reduced modulo the partition count.
\<close>

definition unsignedWiden :: "bool \<Rightarrow> 'k::len word \<Rightarrow> nat" where
  "unsignedWiden is_signed key =
     nat ((if is_signed then sint key else uint key) mod 2 ^ 64)"

definition partitionIndex :: "bool \<Rightarrow> 'k::len word \<Rightarrow> nat \<Rightarrow> nat" where
  "partitionIndex is_signed key partitionCount = unsignedWiden is_signed key mod partitionCount"

subsection \<open>Construction\<close>

text \<open>
  \<^verbatim>\<open>explicit ConcurrentMap(size_t bucket_count) : buckets_(bucket_count) {}\<close>
  The vector is built with \<^verbatim>\<open>bucket_count\<close> value-initialised buckets: an unlocked
  mutex and an empty map each. The body is empty and the argument is not checked, so the
  class itself has no failing branch. The definition describes the constructor for the
  counts for which \<^verbatim>\<open>std::vector\<close> builds the vector. What the vector's own constructor
  throws for a count it cannot hold (\<^verbatim>\<open>std::length_error\<close> above \<^verbatim>\<open>max_size()\<close>,
  \<^verbatim>\<open>std::bad_alloc\<close> when memory runs out) depends on the implementation and on the
  machine and is not modelled: nothing below is a statement that construction with such
  a count succeeds. A count of zero needs no allocation.
\<close>

definition ConcurrentMap_ctor :: "64 word \<Rightarrow> fault + ('k, 'v) ConcurrentMap" where
  "ConcurrentMap_ctor bucket_count =
     Inr \<lparr>buckets = replicate (unat bucket_count) \<lparr>mutex = False, map' = Map.empty\<rparr>\<rparr>"

subsection \<open>Mutexes and the operations of \<^verbatim>\<open>std::map\<close>\<close>

definition update_bucket ::
  "nat \<Rightarrow> (('k, 'v) Bucket \<Rightarrow> ('k, 'v) Bucket) \<Rightarrow> ('k, 'v) ConcurrentMap \<Rightarrow> ('k, 'v) ConcurrentMap" where
  "update_bucket i f cm = cm\<lparr>buckets := (buckets cm)[i := f (buckets cm ! i)]\<rparr>"

text \<open>
  \<^verbatim>\<open>std::lock_guard guard(bucket.mutex)\<close> acquires the mutex of bucket \<open>i\<close>. While the
  mutex is held the caller cannot go on: the result is \<open>None\<close>. The destructor of the
  guard releases the mutex.
\<close>

definition lock_guard_ctor :: "nat \<Rightarrow> ('k, 'v) ConcurrentMap \<Rightarrow> ('k, 'v) ConcurrentMap option" where
  "lock_guard_ctor i cm =
     (if mutex (buckets cm ! i) then None
      else Some (update_bucket i (\<lambda>b. b\<lparr>mutex := True\<rparr>) cm))"

definition lock_guard_dtor :: "nat \<Rightarrow> ('k, 'v) ConcurrentMap \<Rightarrow> ('k, 'v) ConcurrentMap" where
  "lock_guard_dtor i cm = update_bucket i (\<lambda>b. b\<lparr>mutex := False\<rparr>) cm"

text \<open>
  \<^verbatim>\<open>map[key]\<close> inserts a value-initialised value when the key is absent and changes
  nothing when it is present; \<^verbatim>\<open>map.erase(key)\<close> removes the key when it is present;
  \<^verbatim>\<open>result.insert(first, last)\<close> inserts every element of the range whose key is
  not yet in \<^verbatim>\<open>result\<close>, and keeps the elements \<^verbatim>\<open>result\<close> has.
\<close>

definition map_subscript :: "'v \<Rightarrow> 'k \<Rightarrow> ('k \<rightharpoonup> 'v) \<Rightarrow> ('k \<rightharpoonup> 'v)" where
  "map_subscript v0 key m = (case m key of None \<Rightarrow> m(key \<mapsto> v0) | Some v \<Rightarrow> m)"

definition map_erase :: "'k \<Rightarrow> ('k \<rightharpoonup> 'v) \<Rightarrow> ('k \<rightharpoonup> 'v)" where
  "map_erase key m = m(key := None)"

definition map_insert_range :: "('k \<rightharpoonup> 'v) \<Rightarrow> ('k \<rightharpoonup> 'v) \<Rightarrow> ('k \<rightharpoonup> 'v)" where
  "map_insert_range src result = (\<lambda>k. case result k of None \<Rightarrow> src k | Some v \<Rightarrow> Some v)"

subsection \<open>Access\<close>

text \<open>
  \<^verbatim>\<open>Access(const Key& key, Bucket& bucket) : guard(bucket.mutex), ref_to_value(bucket.map[key]) {}\<close>
  The members are initialised in this order: the mutex is locked first, then the slot is
  looked up or created. The destructor of \<^verbatim>\<open>Access\<close> destroys the guard.
\<close>

definition Access_ctor ::
  "'v template_args \<Rightarrow> 'k \<Rightarrow> nat \<Rightarrow> ('k, 'v) ConcurrentMap
     \<Rightarrow> fault + ('k Access \<times> ('k, 'v) ConcurrentMap)" where
  "Access_ctor T key i cm =
     (case lock_guard_ctor i cm of
        None \<Rightarrow> Inl Deadlock
      | Some cm1 \<Rightarrow>
          Inr (\<lparr>guard = i, ref_to_value = (i, key)\<rparr>,
               update_bucket i (\<lambda>b. b\<lparr>map' := map_subscript (Value_init T) key (map' b)\<rparr>) cm1))"

definition Access_dtor :: "'k Access \<Rightarrow> ('k, 'v) ConcurrentMap \<Rightarrow> ('k, 'v) ConcurrentMap" where
  "Access_dtor a cm = lock_guard_dtor (guard a) cm"

text \<open>Reading and writing through \<^verbatim>\<open>ref_to_value\<close>.\<close>

definition ref_load :: "nat \<times> 'k \<Rightarrow> ('k, 'v) ConcurrentMap \<Rightarrow> fault + 'v" where
  "ref_load r cm =
     (case map' (buckets cm ! fst r) (snd r) of
        None \<Rightarrow> Inl DanglingReference
      | Some v \<Rightarrow> Inr v)"

definition ref_store :: "nat \<times> 'k \<Rightarrow> 'v \<Rightarrow> ('k, 'v) ConcurrentMap \<Rightarrow> fault + ('k, 'v) ConcurrentMap" where
  "ref_store r v cm =
     (case map' (buckets cm ! fst r) (snd r) of
        None \<Rightarrow> Inl DanglingReference
      | Some old \<Rightarrow> Inr (update_bucket (fst r) (\<lambda>b. b\<lparr>map' := (map' b)(snd r \<mapsto> v)\<rparr>) cm))"

subsection \<open>The public operations\<close>

text \<open>\<^verbatim>\<open>Access operator[](const Key& key) { return { key, GetBucket(key) }; }\<close>\<close>

definition operator_subscript ::
  "'v template_args \<Rightarrow> 'k::len word \<Rightarrow> ('k word, 'v) ConcurrentMap
     \<Rightarrow> fault + ('k word Access \<times> ('k word, 'v) ConcurrentMap)" where
  "operator_subscript T key cm =
     (case GetBucket T key cm of
        Inl e \<Rightarrow> Inl e
      | Inr i \<Rightarrow> Access_ctor T key i cm)"

text \<open>
  \<^verbatim>\<open>void erase(const Key& key) { Bucket& bucket = GetBucket(key);
  std::lock_guard guard(bucket.mutex); bucket.map.erase(key); }\<close>
\<close>

definition erase ::
  "'v template_args \<Rightarrow> 'k::len word \<Rightarrow> ('k word, 'v) ConcurrentMap
     \<Rightarrow> fault + ('k word, 'v) ConcurrentMap" where
  "erase T key cm =
     (case GetBucket T key cm of
        Inl e \<Rightarrow> Inl e
      | Inr i \<Rightarrow>
          (case lock_guard_ctor i cm of
             None \<Rightarrow> Inl Deadlock
           | Some cm1 \<Rightarrow>
               Inr (lock_guard_dtor i
                      (update_bucket i (\<lambda>b. b\<lparr>map' := map_erase key (map' b)\<rparr>) cm1))))"

text \<open>
  \<^verbatim>\<open>for (auto& [mutex, map] : buckets_) { std::lock_guard g(mutex);
  result.insert(map.begin(), map.end()); }\<close>
  The loop visits the buckets in the order of the vector; each iteration locks the
  bucket, copies, and unlocks at the end of the iteration. The state is threaded through,
  so that what the loop does to the buckets is part of its result.
\<close>

fun BuildOrdinaryMap_loop ::
  "nat list \<Rightarrow> ('k \<rightharpoonup> 'v) \<Rightarrow> ('k, 'v) ConcurrentMap
     \<Rightarrow> fault + (('k \<rightharpoonup> 'v) \<times> ('k, 'v) ConcurrentMap)" where
  "BuildOrdinaryMap_loop [] result cm = Inr (result, cm)"
| "BuildOrdinaryMap_loop (i # rest) result cm =
     (case lock_guard_ctor i cm of
        None \<Rightarrow> Inl Deadlock
      | Some cm1 \<Rightarrow>
          BuildOrdinaryMap_loop rest
            (map_insert_range (map' (buckets cm1 ! i)) result)
            (lock_guard_dtor i cm1))"

definition BuildOrdinaryMap ::
  "('k, 'v) ConcurrentMap \<Rightarrow> fault + (('k \<rightharpoonup> 'v) \<times> ('k, 'v) ConcurrentMap)" where
  "BuildOrdinaryMap cm = BuildOrdinaryMap_loop [0..<length (buckets cm)] Map.empty cm"

subsection \<open>Sequences of operations\<close>

text \<open>
  A caller's use of the map, one full expression at a time.
  \<open>Access_op key f\<close> is an expression such as \<^verbatim>\<open>++cm[key].ref_to_value\<close> or
  \<^verbatim>\<open>cm[key].ref_to_value.push_back('a')\<close>: the temporary \<^verbatim>\<open>Access\<close> is
  created, the value is read through the reference and \<open>f\<close> of it is written back, and
  the temporary is destroyed at the end of the expression. A caller that only reads
  has \<open>f = id\<close>.
\<close>

datatype ('k, 'v) operation =
    Access_op 'k "'v \<Rightarrow> 'v"
  | Erase_op 'k
  | Snapshot_op

definition access_update ::
  "'v template_args \<Rightarrow> 'k::len word \<Rightarrow> ('v \<Rightarrow> 'v) \<Rightarrow> ('k word, 'v) ConcurrentMap
     \<Rightarrow> fault + ('k word, 'v) ConcurrentMap" where
  "access_update T key f cm =
     (case operator_subscript T key cm of
        Inl e \<Rightarrow> Inl e
      | Inr (a, cm1) \<Rightarrow>
          (case ref_load (ref_to_value a) cm1 of
             Inl e \<Rightarrow> Inl e
           | Inr v \<Rightarrow>
               (case ref_store (ref_to_value a) (f v) cm1 of
                  Inl e \<Rightarrow> Inl e
                | Inr cm2 \<Rightarrow> Inr (Access_dtor a cm2))))"

fun exec ::
  "'v template_args \<Rightarrow> ('k::len word, 'v) operation \<Rightarrow> ('k word, 'v) ConcurrentMap
     \<Rightarrow> fault + ('k word, 'v) ConcurrentMap" where
  "exec T (Access_op key f) cm = access_update T key f cm"
| "exec T (Erase_op key) cm = erase T key cm"
| "exec T Snapshot_op cm =
     (case BuildOrdinaryMap cm of Inl e \<Rightarrow> Inl e | Inr (result, cm1) \<Rightarrow> Inr cm1)"

fun run ::
  "'v template_args \<Rightarrow> ('k::len word, 'v) operation list \<Rightarrow> ('k word, 'v) ConcurrentMap
     \<Rightarrow> fault + ('k word, 'v) ConcurrentMap" where
  "run T [] cm = Inr cm"
| "run T (op # ops) cm =
     (case exec T op cm of Inl e \<Rightarrow> Inl e | Inr cm1 \<Rightarrow> run T ops cm1)"

text \<open>Construct with \<open>n\<close> buckets, then run the operations.\<close>

definition construct_and_run ::
  "'v template_args \<Rightarrow> 64 word \<Rightarrow> ('k::len word, 'v) operation list
     \<Rightarrow> fault + ('k word, 'v) ConcurrentMap" where
  "construct_and_run T n ops =
     (case ConcurrentMap_ctor n of Inl e \<Rightarrow> Inl e | Inr cm \<Rightarrow> run T ops cm)"

text \<open>
  The spec's reading of the same sequence, on one ordinary map: access creates the
  entry with the default value when it is absent and then writes, erase removes the
  entry, the snapshot changes nothing.
\<close>

fun ordinary_map_step :: "'v \<Rightarrow> ('k, 'v) operation \<Rightarrow> ('k \<rightharpoonup> 'v) \<Rightarrow> ('k \<rightharpoonup> 'v)" where
  "ordinary_map_step v0 (Access_op key f) m =
     m(key \<mapsto> f (case m key of None \<Rightarrow> v0 | Some v \<Rightarrow> v))"
| "ordinary_map_step v0 (Erase_op key) m = m(key := None)"
| "ordinary_map_step v0 Snapshot_op m = m"

fun ordinary_map :: "'v \<Rightarrow> ('k, 'v) operation list \<Rightarrow> ('k \<rightharpoonup> 'v) \<Rightarrow> ('k \<rightharpoonup> 'v)" where
  "ordinary_map v0 [] m = m"
| "ordinary_map v0 (op # ops) m = ordinary_map v0 ops (ordinary_map_step v0 op m)"

subsection \<open>Presence of a key, and the state of a map between operations\<close>

text \<open>
  A key is in the map when some bucket's map has it. The spec's "inserted and not
  subsequently erased" is read off the sequence of operations, latest first: the latest
  operation on the key decides.
\<close>

definition contains :: "('k, 'v) ConcurrentMap \<Rightarrow> 'k \<Rightarrow> bool" where
  "contains cm key \<longleftrightarrow> (\<exists>b \<in> set (buckets cm). key \<in> dom (map' b))"

fun live :: "'k \<Rightarrow> ('k, 'v) operation list \<Rightarrow> bool" where
  "live key [] = False"
| "live key (Access_op key' f # earlier) = (key = key' \<or> live key earlier)"
| "live key (Erase_op key' # earlier) = (key \<noteq> key' \<and> live key earlier)"
| "live key (Snapshot_op # earlier) = live key earlier"

definition inserted_not_erased :: "'k \<Rightarrow> ('k, 'v) operation list \<Rightarrow> bool" where
  "inserted_not_erased key ops = live key (rev ops)"

text \<open>
  Between two operations of a single caller no mutex is held. The partition invariant:
  bucket \<open>i\<close> holds only keys whose partition index is \<open>i\<close>.
\<close>

definition quiescent :: "('k, 'v) ConcurrentMap \<Rightarrow> bool" where
  "quiescent cm \<longleftrightarrow> (\<forall>b \<in> set (buckets cm). \<not> mutex b)"

definition partitioned :: "'v template_args \<Rightarrow> ('k::len word, 'v) ConcurrentMap \<Rightarrow> bool" where
  "partitioned T cm \<longleftrightarrow>
     (\<forall>i < length (buckets cm). \<forall>key \<in> dom (map' (buckets cm ! i)).
        partitionIndex (Key_is_signed T) key (length (buckets cm)) = i)"

definition constructed :: "'v template_args \<Rightarrow> 64 word \<Rightarrow> ('k::len word, 'v) ConcurrentMap \<Rightarrow> bool" where
  "constructed T n cm \<longleftrightarrow>
     0 < n \<and> length (buckets cm) = unat n \<and> quiescent cm \<and> partitioned T cm"

text \<open>The entry of each key, looked up in the bucket the key selects.\<close>

definition snapshot_of :: "'v template_args \<Rightarrow> ('k::len word, 'v) ConcurrentMap \<Rightarrow> ('k word \<rightharpoonup> 'v)" where
  "snapshot_of T cm =
     (\<lambda>key. map' (buckets cm ! partitionIndex (Key_is_signed T) key (length (buckets cm))) key)"

section \<open>RunConcurrentUpdates: threads on a \<^verbatim>\<open>ConcurrentMap<int, int>\<close>\<close>

text \<open>
  \<^verbatim>\<open>RunConcurrentUpdates\<close> starts \<^verbatim>\<open>thread_count\<close> tasks that run the same kernel on one
  map, and returns when the futures are destroyed, that is when every task has finished.
  The kernel fills \<^verbatim>\<open>updates\<close> with \<^verbatim>\<open>key_count\<close> consecutive integers from
  \<^verbatim>\<open>-key_count / 2\<close>, shuffles them, and runs \<^verbatim>\<open>++cm[key].ref_to_value\<close> for every
  key of \<^verbatim>\<open>updates\<close>, twice.

  The tasks are modelled as threads whose steps interleave in any order (the tasks are
  taken to run, as under the launch policy \<^verbatim>\<open>std::launch::async\<close>). One evaluation of
  \<^verbatim>\<open>++cm[key].ref_to_value\<close> is six steps, each one of the operations defined above:
  \<^verbatim>\<open>GetBucket\<close>, locking the mutex (which can only be taken when it is free), the
  \<^verbatim>\<open>map[key]\<close> of the \<^verbatim>\<open>Access\<close> constructor, the read of the value, the write of the
  value plus one, and the unlock at the end of the full expression. The read and the write
  are separate steps, so an update would be lost if two threads could interleave them on
  one slot.
\<close>

text \<open>
  Where a thread is: between two statements (\<open>Idle\<close>); after \<^verbatim>\<open>GetBucket\<close>, about to
  lock the bucket it chose; holding the mutex, about to evaluate \<^verbatim>\<open>map[key]\<close>; with the
  reference bound, about to read; with the value read, about to write; and with the
  value written, about to destroy the \<^verbatim>\<open>Access\<close>. \<open>todo\<close> is the keys still to be
  incremented.
\<close>

datatype 'k kernel_pc =
    Idle
  | Lock_wait nat 'k
  | Locked nat 'k
  | Bound "'k Access"
  | Loaded "'k Access" "32 word"
  | Stored "'k Access"

record 'k thread =
  pc :: "'k kernel_pc"
  todo :: "'k list"

text \<open>\<^verbatim>\<open>++\<close> on an \<^verbatim>\<open>int\<close>: undefined on \<^verbatim>\<open>INT_MAX\<close>.\<close>

definition increment :: "32 word \<Rightarrow> fault + 32 word" where
  "increment v = (if v = 2147483647 then Inl SignedOverflow else Inr (v + 1))"

text \<open>
  One step of a thread. \<open>Inl\<close> is a fault; \<open>Inr None\<close> is a thread that cannot move
  now, because it has finished or because the mutex it waits for is held.
\<close>

definition thread_step ::
  "32 word template_args \<Rightarrow> 'k::len word thread \<Rightarrow> ('k word, 32 word) ConcurrentMap
     \<Rightarrow> fault + ('k word thread \<times> ('k word, 32 word) ConcurrentMap) option" where
  "thread_step T th cm =
     (case pc th of
        Idle \<Rightarrow>
          (case todo th of
             [] \<Rightarrow> Inr None
           | key # rest \<Rightarrow>
               (case GetBucket T key cm of
                  Inl e \<Rightarrow> Inl e
                | Inr i \<Rightarrow> Inr (Some (\<lparr>pc = Lock_wait i key, todo = rest\<rparr>, cm))))
      | Lock_wait i key \<Rightarrow>
          (case lock_guard_ctor i cm of
             None \<Rightarrow> Inr None
           | Some cm1 \<Rightarrow> Inr (Some (th\<lparr>pc := Locked i key\<rparr>, cm1)))
      | Locked i key \<Rightarrow>
          Inr (Some (th\<lparr>pc := Bound \<lparr>guard = i, ref_to_value = (i, key)\<rparr>\<rparr>,
                     update_bucket i
                       (\<lambda>b. b\<lparr>map' := map_subscript (Value_init T) key (map' b)\<rparr>) cm))
      | Bound a \<Rightarrow>
          (case ref_load (ref_to_value a) cm of
             Inl e \<Rightarrow> Inl e
           | Inr v \<Rightarrow> Inr (Some (th\<lparr>pc := Loaded a v\<rparr>, cm)))
      | Loaded a v \<Rightarrow>
          (case increment v of
             Inl e \<Rightarrow> Inl e
           | Inr v' \<Rightarrow>
               (case ref_store (ref_to_value a) v' cm of
                  Inl e \<Rightarrow> Inl e
                | Inr cm1 \<Rightarrow> Inr (Some (th\<lparr>pc := Stored a\<rparr>, cm1))))
      | Stored a \<Rightarrow> Inr (Some (th\<lparr>pc := Idle\<rparr>, Access_dtor a cm)))"

text \<open>
  A schedule is the list of the threads that are given a step, in order. A thread that
  cannot move stays where it is.
\<close>

definition sched_step ::
  "32 word template_args \<Rightarrow> nat
     \<Rightarrow> 'k::len word thread list \<times> ('k word, 32 word) ConcurrentMap
     \<Rightarrow> 'k word thread list \<times> ('k word, 32 word) ConcurrentMap" where
  "sched_step T t s =
     (if t < length (fst s) then
        (case thread_step T (fst s ! t) (snd s) of
           Inr (Some (th, cm)) \<Rightarrow> ((fst s)[t := th], cm)
         | _ \<Rightarrow> s)
      else s)"

fun run_schedule ::
  "32 word template_args \<Rightarrow> nat list
     \<Rightarrow> 'k::len word thread list \<times> ('k word, 32 word) ConcurrentMap
     \<Rightarrow> 'k word thread list \<times> ('k word, 32 word) ConcurrentMap" where
  "run_schedule T [] s = s"
| "run_schedule T (t # sched) s = run_schedule T sched (sched_step T t s)"

definition finished :: "'k thread \<Rightarrow> bool" where
  "finished th \<longleftrightarrow> pc th = Idle \<and> todo th = []"

definition all_finished :: "'k thread list \<Rightarrow> bool" where
  "all_finished ths \<longleftrightarrow> list_all finished ths"

text \<open>
  \<^verbatim>\<open>ConcurrentMap<int, int>\<close>: signed keys, and \<^verbatim>\<open>int()\<close> is zero.
  \<open>iota_updates\<close> is \<^verbatim>\<open>updates\<close> after \<^verbatim>\<open>iota\<close>; \<open>kernel_keys\<close> is the keys the two
  passes of the kernel increment, in order, given the shuffled \<^verbatim>\<open>updates\<close>;
  \<open>spawn\<close> starts one thread for each list of keys.
\<close>

definition int_int :: "32 word template_args" where
  "int_int = \<lparr>Key_is_signed = True, Value_init = 0\<rparr>"

definition iota_updates :: "nat \<Rightarrow> 32 word list" where
  "iota_updates key_count =
     map (\<lambda>j. word_of_int (- (int key_count div 2) + int j)) [0..<key_count]"

definition kernel_keys :: "'k list \<Rightarrow> 'k list" where
  "kernel_keys updates = updates @ updates"

definition spawn :: "'k list list \<Rightarrow> 'k thread list" where
  "spawn keyss = map (\<lambda>keys. \<lparr>pc = Idle, todo = keys\<rparr>) keyss"

text \<open>The number of increments of a key that the threads are asked for, all together.\<close>

definition increments :: "'k list list \<Rightarrow> 'k \<Rightarrow> nat" where
  "increments keyss key = count_list (concat keyss) key"

subsection \<open>The invariant of the interleaving\<close>

text \<open>
  The mutex a thread holds, and the key whose increment it has begun and not yet written.
\<close>

fun holding :: "'k kernel_pc \<Rightarrow> nat option" where
  "holding Idle = None"
| "holding (Lock_wait i key) = None"
| "holding (Locked i key) = Some i"
| "holding (Bound a) = Some (guard a)"
| "holding (Loaded a v) = Some (guard a)"
| "holding (Stored a) = Some (guard a)"

fun pending_key :: "'k kernel_pc \<Rightarrow> 'k option" where
  "pending_key Idle = None"
| "pending_key (Lock_wait i key) = Some key"
| "pending_key (Locked i key) = Some key"
| "pending_key (Bound a) = Some (snd (ref_to_value a))"
| "pending_key (Loaded a v) = Some (snd (ref_to_value a))"
| "pending_key (Stored a) = None"

definition pending1 :: "'k thread \<Rightarrow> 'k \<Rightarrow> nat" where
  "pending1 th key =
     count_list (todo th) key + (if pending_key (pc th) = Some key then 1 else 0)"

definition pending :: "'k thread list \<Rightarrow> 'k \<Rightarrow> nat" where
  "pending ths key = sum_list (map (\<lambda>th. pending1 th key) ths)"

text \<open>
  What a thread's position says of the map: the bucket it chose is the key's, the mutex
  it took is locked, the slot its reference is bound to exists, and the value it read is
  still the value of the slot.
\<close>

definition access_ok ::
  "32 word template_args \<Rightarrow> 64 word \<Rightarrow> ('k::len word, 32 word) ConcurrentMap \<Rightarrow> 'k word Access \<Rightarrow> bool" where
  "access_ok T n cm a \<longleftrightarrow>
     guard a = partitionIndex (Key_is_signed T) (snd (ref_to_value a)) (unat n)
     \<and> fst (ref_to_value a) = guard a
     \<and> mutex (buckets cm ! guard a)
     \<and> map' (buckets cm ! guard a) (snd (ref_to_value a)) \<noteq> None"

fun pc_ok ::
  "32 word template_args \<Rightarrow> 64 word \<Rightarrow> ('k::len word, 32 word) ConcurrentMap
     \<Rightarrow> 'k word kernel_pc \<Rightarrow> bool" where
  "pc_ok T n cm Idle = True"
| "pc_ok T n cm (Lock_wait i key) = (i = partitionIndex (Key_is_signed T) key (unat n))"
| "pc_ok T n cm (Locked i key) =
     (i = partitionIndex (Key_is_signed T) key (unat n) \<and> mutex (buckets cm ! i))"
| "pc_ok T n cm (Bound a) = access_ok T n cm a"
| "pc_ok T n cm (Loaded a v) =
     (access_ok T n cm a \<and> map' (buckets cm ! guard a) (snd (ref_to_value a)) = Some v)"
| "pc_ok T n cm (Stored a) = access_ok T n cm a"

definition unique_holders :: "nat option list \<Rightarrow> bool" where
  "unique_holders hs \<longleftrightarrow>
     (\<forall>t < length hs. \<forall>t' < length hs. hs ! t \<noteq> None \<and> hs ! t = hs ! t' \<longrightarrow> t = t')"

text \<open>The value of a key as a number, zero when the key is absent.\<close>

definition cur :: "32 word template_args \<Rightarrow> ('k::len word, 32 word) ConcurrentMap \<Rightarrow> 'k word \<Rightarrow> nat" where
  "cur T cm key = (case snapshot_of T cm key of None \<Rightarrow> 0 | Some v \<Rightarrow> unat v)"

text \<open>
  The invariant: the partition invariant; every thread's position is right; no two
  threads hold the same mutex and a locked mutex has a holder; for every key, its value
  plus the increments still to be written is the number asked for; and a key is present
  only if some increment of it was asked for.
\<close>

definition inv ::
  "32 word template_args \<Rightarrow> 64 word \<Rightarrow> ('k::len word \<Rightarrow> nat)
     \<Rightarrow> 'k word thread list \<times> ('k word, 32 word) ConcurrentMap \<Rightarrow> bool" where
  "inv T n tot s \<longleftrightarrow>
     0 < n \<and> length (buckets (snd s)) = unat n \<and> Value_init T = 0
     \<and> partitioned T (snd s)
     \<and> (\<forall>key. tot key < 2 ^ 31)
     \<and> (\<forall>th \<in> set (fst s). pc_ok T n (snd s) (pc th))
     \<and> unique_holders (map (\<lambda>th. holding (pc th)) (fst s))
     \<and> (\<forall>i < unat n. mutex (buckets (snd s) ! i)
           \<longrightarrow> Some i \<in> set (map (\<lambda>th. holding (pc th)) (fst s)))
     \<and> (\<forall>key. cur T (snd s) key + pending (fst s) key = tot key)
     \<and> (\<forall>key. snapshot_of T (snd s) key \<noteq> None \<longrightarrow> 0 < tot key)"

text \<open>The steps a thread has left: every step takes one.\<close>

definition work1 :: "'k thread \<Rightarrow> nat" where
  "work1 th = 6 * length (todo th) +
     (case pc th of Idle \<Rightarrow> 0 | Lock_wait i key \<Rightarrow> 5 | Locked i key \<Rightarrow> 4
      | Bound a \<Rightarrow> 3 | Loaded a v \<Rightarrow> 2 | Stored a \<Rightarrow> 1)"

definition work :: "'k thread list \<Rightarrow> nat" where
  "work ths = sum_list (map work1 ths)"

section \<open>Lemmas\<close>

subsection \<open>Partition selection is the function of the spec\<close>

lemma unat_static_cast_uint64:
  "unat (static_cast_uint64 sg (key :: 'k::len word)) = unsignedWiden sg key"
proof (cases sg)
  case True
  have "unat (scast key :: 64 word) = nat (sint key mod 2 ^ 64)"
    apply (simp only: scast_eq)
    apply (simp only: unat_eq_nat_uint uint_word_of_int)
    apply simp
    done
  with True show ?thesis by (simp only: static_cast_uint64_def unsignedWiden_def if_True)
next
  case False
  have "unat (ucast key :: 64 word) = nat (uint key mod 2 ^ 64)"
    apply (simp only: ucast_eq)
    apply (simp only: unat_eq_nat_uint uint_word_of_int)
    apply simp
    done
  with False show ?thesis by (simp only: static_cast_uint64_def unsignedWiden_def if_False)
qed

lemma GetBucket_partitionIndex:
  assumes len: "length (buckets cm) = unat (n :: 64 word)" and pos: "0 < n"
  shows "GetBucket T key cm = Inr (partitionIndex (Key_is_signed T) key (unat n))"
    and "partitionIndex (Key_is_signed T) key (unat n) < unat n"
proof -
  have sz: "(word_of_nat (length (buckets cm)) :: 64 word) = n"
    using len by simp
  have n0: "n \<noteq> 0" using pos by auto
  have un: "0 < unat n" using pos by (simp add: word_less_nat_alt)
  have ix: "unat (static_cast_uint64 (Key_is_signed T) key mod n)
            = partitionIndex (Key_is_signed T) key (unat n)"
    by (simp only: unat_mod unat_static_cast_uint64 partitionIndex_def)
  show lt: "partitionIndex (Key_is_signed T) key (unat n) < unat n"
    using un by (simp add: partitionIndex_def)
  show "GetBucket T key cm = Inr (partitionIndex (Key_is_signed T) key (unat n))"
    unfolding GetBucket_def Let_def sz ix using n0 lt len by simp
qed

subsection \<open>The operations on a map with no mutex held\<close>

lemma buckets_update_bucket [simp]:
  "buckets (update_bucket i f cm) = (buckets cm)[i := f (buckets cm ! i)]"
  by (simp add: update_bucket_def)

lemma update_bucket_same:
  "f (buckets cm ! i) = buckets cm ! i \<Longrightarrow> update_bucket i f cm = cm"
  by (simp add: update_bucket_def)

lemma lock_guard_ctor_free:
  "\<not> mutex (buckets cm ! i) \<Longrightarrow>
   lock_guard_ctor i cm = Some (update_bucket i (\<lambda>b. b\<lparr>mutex := True\<rparr>) cm)"
  by (simp add: lock_guard_ctor_def)

lemma quiescent_nth: "quiescent cm \<Longrightarrow> i < length (buckets cm) \<Longrightarrow> \<not> mutex (buckets cm ! i)"
  by (simp add: quiescent_def)

lemma access_update_quiescent:
  assumes len: "length (buckets cm) = unat (n :: 64 word)" and pos: "0 < n"
    and q: "quiescent cm"
  shows "access_update T key f cm =
     Inr (update_bucket (partitionIndex (Key_is_signed T) key (unat n))
            (\<lambda>b. b\<lparr>map' := (map' b)(key \<mapsto> f (case map' b key of None \<Rightarrow> Value_init T | Some v \<Rightarrow> v))\<rparr>) cm)"
proof -
  let ?i = "partitionIndex (Key_is_signed T) key (unat n)"
  have gb: "GetBucket T key cm = Inr ?i" and lt: "?i < length (buckets cm)"
    using GetBucket_partitionIndex [OF len pos] len by simp_all
  have free: "\<not> mutex (buckets cm ! ?i)" using q lt by (rule quiescent_nth)
  obtain mx mp where b: "buckets cm ! ?i = \<lparr>mutex = mx, map' = mp\<rparr>"
    by (cases "buckets cm ! ?i") auto
  with free have mx: "mx = False" by simp
  show ?thesis
    using lt
    by (cases "mp key")
       (simp_all add: access_update_def operator_subscript_def gb Access_ctor_def
          lock_guard_ctor_free [OF free] ref_load_def ref_store_def Access_dtor_def
          lock_guard_dtor_def map_subscript_def update_bucket_def b mx)
qed

lemma erase_quiescent:
  assumes len: "length (buckets cm) = unat (n :: 64 word)" and pos: "0 < n"
    and q: "quiescent cm"
  shows "erase T key cm =
     Inr (update_bucket (partitionIndex (Key_is_signed T) key (unat n))
            (\<lambda>b. b\<lparr>map' := (map' b)(key := None)\<rparr>) cm)"
proof -
  let ?i = "partitionIndex (Key_is_signed T) key (unat n)"
  have gb: "GetBucket T key cm = Inr ?i" and lt: "?i < length (buckets cm)"
    using GetBucket_partitionIndex [OF len pos] len by simp_all
  have free: "\<not> mutex (buckets cm ! ?i)" using q lt by (rule quiescent_nth)
  obtain mx mp where b: "buckets cm ! ?i = \<lparr>mutex = mx, map' = mp\<rparr>"
    by (cases "buckets cm ! ?i") auto
  with free have mx: "mx = False" by simp
  show ?thesis
    using lt
    by (simp add: erase_def gb lock_guard_ctor_free [OF free] lock_guard_dtor_def
          map_erase_def update_bucket_def b mx)
qed

lemma BuildOrdinaryMap_loop_quiescent:
  assumes q: "quiescent cm" and ix: "\<forall>i \<in> set ixs. i < length (buckets cm)"
  shows "BuildOrdinaryMap_loop ixs result cm =
     Inr (fold (\<lambda>i r. map_insert_range (map' (buckets cm ! i)) r) ixs result, cm)"
  using ix
proof (induction ixs arbitrary: result)
  case Nil
  show ?case by simp
next
  case (Cons i rest)
  have lt: "i < length (buckets cm)" using Cons.prems by simp
  have free: "\<not> mutex (buckets cm ! i)" using q lt by (rule quiescent_nth)
  let ?cm1 = "update_bucket i (\<lambda>b. b\<lparr>mutex := True\<rparr>) cm"
  have undo: "lock_guard_dtor i ?cm1 = cm"
    using lt free by (simp add: lock_guard_dtor_def update_bucket_def list_update_same_conv)
  have same: "map' (buckets ?cm1 ! i) = map' (buckets cm ! i)"
    using lt by simp
  show ?case
    using Cons.IH Cons.prems
    by (simp add: lock_guard_ctor_free [OF free] undo same)
qed

subsection \<open>The snapshot of a partitioned map\<close>

lemma fold_insert_range_keep:
  "r k = Some v \<Longrightarrow> fold (\<lambda>i. map_insert_range (g i)) ixs r k = Some v"
  by (induction ixs arbitrary: r) (simp_all add: map_insert_range_def)

lemma fold_insert_range_single:
  "\<forall>i \<in> set ixs. i \<noteq> p \<longrightarrow> g i k = None \<Longrightarrow> r k = None \<Longrightarrow>
   fold (\<lambda>i. map_insert_range (g i)) ixs r k = (if p \<in> set ixs then g p k else None)"
proof (induction ixs arbitrary: r)
  case Nil
  then show ?case by simp
next
  case (Cons i rest)
  show ?case
  proof (cases "map_insert_range (g i) r k")
    case None
    then have "g i k = None" using Cons.prems(2) by (simp add: map_insert_range_def)
    moreover have "fold (\<lambda>i. map_insert_range (g i)) rest (map_insert_range (g i) r) k
        = (if p \<in> set rest then g p k else None)"
      using Cons.prems(1) by (intro Cons.IH None) simp
    ultimately show ?thesis by auto
  next
    case (Some v)
    then have gi: "g i k = Some v" using Cons.prems(2) by (simp add: map_insert_range_def)
    then have "i = p" using Cons.prems(1) by auto
    then show ?thesis
      using fold_insert_range_keep [of "map_insert_range (g i) r" k v g rest] Some gi by simp
  qed
qed

lemma BuildOrdinaryMap_constructed:
  assumes c: "constructed T n (cm :: ('k::len word, 'v) ConcurrentMap)"
  shows "BuildOrdinaryMap cm = Inr (snapshot_of T cm, cm)"
proof -
  let ?N = "length (buckets cm)"
  let ?g = "\<lambda>i. map' (buckets cm ! i)"
  have q: "quiescent cm" and p: "partitioned T cm" and N: "0 < ?N"
    using c by (simp_all add: constructed_def word_less_nat_alt)
  have "fold (\<lambda>i. map_insert_range (?g i)) [0..<?N] Map.empty = snapshot_of T cm"
  proof
    fix key :: "'k word"
    let ?p = "partitionIndex (Key_is_signed T) key ?N"
    have lt: "?p < ?N" using N by (simp add: partitionIndex_def)
    have "\<forall>i \<in> set [0..<?N]. i \<noteq> ?p \<longrightarrow> ?g i key = None"
      using p by (fastforce simp: partitioned_def dom_def)
    then have "fold (\<lambda>i. map_insert_range (?g i)) [0..<?N] Map.empty key
        = (if ?p \<in> set [0..<?N] then ?g ?p key else None)"
      by (rule fold_insert_range_single [of "[0..<?N]" ?p ?g key Map.empty]) simp
    then show "fold (\<lambda>i. map_insert_range (?g i)) [0..<?N] Map.empty key = snapshot_of T cm key"
      using lt by (simp add: snapshot_of_def)
  qed
  then show ?thesis
    using BuildOrdinaryMap_loop_quiescent [OF q, of "[0..<?N]" Map.empty]
    by (simp add: BuildOrdinaryMap_def)
qed

subsection \<open>Every operation keeps the map well formed\<close>

lemma constructed_ctor:
  "0 < n \<Longrightarrow> ConcurrentMap_ctor n = Inr cm \<Longrightarrow> constructed T n cm"
  by (auto simp: ConcurrentMap_ctor_def constructed_def quiescent_def partitioned_def)

lemma constructed_update_map:
  assumes c: "constructed T n cm"
    and i: "i = partitionIndex (Key_is_signed T) key (unat n)"
    and mx: "mutex (f (buckets cm ! i)) = mutex (buckets cm ! i)"
    and d: "dom (map' (f (buckets cm ! i))) \<subseteq> insert key (dom (map' (buckets cm ! i)))"
  shows "constructed T n (update_bucket i f cm)"
proof -
  have len: "length (buckets cm) = unat n" and q: "quiescent cm" and p: "partitioned T cm"
    and pos: "0 < n"
    using c by (simp_all add: constructed_def)
  have lt: "i < length (buckets cm)"
    using GetBucket_partitionIndex(2) [OF len pos] i len by simp
  have q': "quiescent (update_bucket i f cm)"
    unfolding quiescent_def
  proof
    fix b assume "b \<in> set (buckets (update_bucket i f cm))"
    then have "b \<in> insert (f (buckets cm ! i)) (set (buckets cm))"
      using set_update_subset_insert by fastforce
    then show "\<not> mutex b" using q lt mx by (auto simp: quiescent_def)
  qed
  have p': "partitioned T (update_bucket i f cm)"
    unfolding partitioned_def
  proof (intro allI impI ballI)
    fix j k
    assume j: "j < length (buckets (update_bucket i f cm))"
      and k: "k \<in> dom (map' (buckets (update_bucket i f cm) ! j))"
    show "partitionIndex (Key_is_signed T) k (length (buckets (update_bucket i f cm))) = j"
    proof (cases "j = i")
      case True
      with k lt have "k \<in> dom (map' (f (buckets cm ! i)))" by simp
      with d have "k = key \<or> k \<in> dom (map' (buckets cm ! i))" by auto
      then show ?thesis using p lt i len True by (auto simp: partitioned_def)
    next
      case False
      with k j have "k \<in> dom (map' (buckets cm ! j))" by simp
      then show ?thesis using p j by (simp add: partitioned_def)
    qed
  qed
  show ?thesis using pos len q' p' by (simp add: constructed_def)
qed

lemma exec_constructed:
  assumes c: "constructed T n cm"
  shows "\<exists>cm'. exec T op cm = Inr cm' \<and> constructed T n cm'"
proof -
  have len: "length (buckets cm) = unat n" and q: "quiescent cm" and pos: "0 < n"
    using c by (simp_all add: constructed_def)
  show ?thesis
  proof (cases op)
    case (Access_op key f)
    have "constructed T n (update_bucket (partitionIndex (Key_is_signed T) key (unat n))
            (\<lambda>b. b\<lparr>map' := (map' b)(key \<mapsto> f (case map' b key of None \<Rightarrow> Value_init T | Some v \<Rightarrow> v))\<rparr>) cm)"
      by (rule constructed_update_map [OF c refl]) auto
    then show ?thesis
      by (simp add: Access_op access_update_quiescent [OF len pos q])
  next
    case (Erase_op key)
    have "constructed T n (update_bucket (partitionIndex (Key_is_signed T) key (unat n))
            (\<lambda>b. b\<lparr>map' := (map' b)(key := None)\<rparr>) cm)"
      by (rule constructed_update_map [OF c refl]) auto
    then show ?thesis
      by (simp add: Erase_op erase_quiescent [OF len pos q])
  next
    case Snapshot_op
    show ?thesis
      using c by (simp add: Snapshot_op BuildOrdinaryMap_constructed [OF c])
  qed
qed

lemma run_constructed:
  "constructed T n cm \<Longrightarrow> \<exists>cm'. run T ops cm = Inr cm' \<and> constructed T n cm'"
proof (induction ops arbitrary: cm)
  case Nil
  then show ?case by simp
next
  case (Cons op ops)
  from exec_constructed [OF Cons.prems, of op]
  obtain cm1 where e: "exec T op cm = Inr cm1" and c1: "constructed T n cm1" by blast
  from Cons.IH [OF c1] show ?case by (simp add: e)
qed

lemma construct_and_run_constructed:
  assumes pos: "0 < n"
  shows "\<exists>cm. construct_and_run T n ops = Inr cm \<and> constructed T n cm"
proof -
  obtain cm0 :: "('a word, 'b) ConcurrentMap" where c0: "ConcurrentMap_ctor n = Inr cm0"
    by (simp add: ConcurrentMap_ctor_def)
  from run_constructed [OF constructed_ctor [OF pos c0]] show ?thesis
    by (simp add: construct_and_run_def c0)
qed

subsection \<open>The map refines one ordinary map\<close>

lemma snapshot_of_update_bucket:
  assumes len: "length (buckets cm) = unat (n :: 64 word)" and pos: "0 < n"
    and i: "i = partitionIndex (Key_is_signed T) key (unat n)"
    and other: "\<And>k. k \<noteq> key \<Longrightarrow> map' (f (buckets cm ! i)) k = map' (buckets cm ! i) k"
  shows "snapshot_of T (update_bucket i f cm)
       = (snapshot_of T cm)(key := map' (f (buckets cm ! i)) key)"
proof
  fix k :: "'a word"
  let ?j = "partitionIndex (Key_is_signed T) k (unat n)"
  have lt: "i < length (buckets cm)" and ltj: "?j < length (buckets cm)"
    using GetBucket_partitionIndex(2) [OF len pos] i len by simp_all
  show "snapshot_of T (update_bucket i f cm) k
      = ((snapshot_of T cm)(key := map' (f (buckets cm ! i)) key)) k"
  proof (cases "k = key")
    case True
    then show ?thesis using lt i len by (simp add: snapshot_of_def)
  next
    case False
    show ?thesis
    proof (cases "?j = i")
      case True
      then show ?thesis using False lt len other [OF False] by (simp add: snapshot_of_def)
    next
      case ne: False
      then show ?thesis using False ltj len by (simp add: snapshot_of_def)
    qed
  qed
qed

lemma snapshot_of_exec:
  assumes c: "constructed T n cm" and e: "exec T op cm = Inr cm'"
  shows "snapshot_of T cm' = ordinary_map_step (Value_init T) op (snapshot_of T cm)"
proof -
  have len: "length (buckets cm) = unat n" and q: "quiescent cm" and pos: "0 < n"
    using c by (simp_all add: constructed_def)
  show ?thesis
  proof (cases op)
    case (Access_op key f)
    let ?i = "partitionIndex (Key_is_signed T) key (unat n)"
    let ?f = "\<lambda>b. b\<lparr>map' := (map' b)(key \<mapsto> f (case map' b key of None \<Rightarrow> Value_init T | Some v \<Rightarrow> v))\<rparr>"
    have cm': "cm' = update_bucket ?i ?f cm"
      using e by (simp add: Access_op access_update_quiescent [OF len pos q])
    have "snapshot_of T (update_bucket ?i ?f cm)
        = (snapshot_of T cm)(key := map' (?f (buckets cm ! ?i)) key)"
      by (rule snapshot_of_update_bucket [OF len pos refl]) simp
    then show ?thesis
      by (simp add: cm' Access_op snapshot_of_def len)
  next
    case (Erase_op key)
    let ?i = "partitionIndex (Key_is_signed T) key (unat n)"
    let ?f = "\<lambda>b. b\<lparr>map' := (map' b)(key := None)\<rparr>"
    have cm': "cm' = update_bucket ?i ?f cm"
      using e by (simp add: Erase_op erase_quiescent [OF len pos q])
    have "snapshot_of T (update_bucket ?i ?f cm)
        = (snapshot_of T cm)(key := map' (?f (buckets cm ! ?i)) key)"
      by (rule snapshot_of_update_bucket [OF len pos refl]) simp
    then show ?thesis
      by (simp add: cm' Erase_op)
  next
    case Snapshot_op
    then show ?thesis using e by (simp add: BuildOrdinaryMap_constructed [OF c])
  qed
qed

lemma snapshot_of_run:
  "constructed T n cm \<Longrightarrow> run T ops cm = Inr cm' \<Longrightarrow>
   snapshot_of T cm' = ordinary_map (Value_init T) ops (snapshot_of T cm)"
proof (induction ops arbitrary: cm)
  case Nil
  then show ?case by simp
next
  case (Cons op ops)
  from exec_constructed [OF Cons.prems(1), of op]
  obtain cm1 where e: "exec T op cm = Inr cm1" and c1: "constructed T n cm1" by blast
  have r: "run T ops cm1 = Inr cm'" using Cons.prems(2) by (simp add: e)
  show ?case
    using Cons.IH [OF c1 r] snapshot_of_exec [OF Cons.prems(1) e] by simp
qed

lemma snapshot_of_ctor:
  "ConcurrentMap_ctor n = Inr cm \<Longrightarrow> 0 < n \<Longrightarrow> snapshot_of T cm = Map.empty"
proof
  fix key :: "'a word"
  assume c: "ConcurrentMap_ctor n = Inr cm" and pos: "0 < n"
  have "partitionIndex (Key_is_signed T) key (unat n) < unat n"
    using pos by (simp add: partitionIndex_def word_less_nat_alt)
  then show "snapshot_of T cm key = None"
    using c by (auto simp: ConcurrentMap_ctor_def snapshot_of_def)
qed

lemma ordinary_map_append:
  "ordinary_map v0 (ops @ ops') m = ordinary_map v0 ops' (ordinary_map v0 ops m)"
  by (induction ops arbitrary: m) simp_all

lemma ordinary_map_live:
  "(ordinary_map v0 ops Map.empty key \<noteq> None) = live key (rev ops)"
proof (induction ops rule: rev_induct)
  case Nil
  then show ?case by simp
next
  case (snoc op ops)
  then show ?case
    by (cases op) (simp_all add: ordinary_map_append)
qed

lemma dom_ordinary_map:
  "dom (ordinary_map v0 ops Map.empty) = {key. inserted_not_erased key ops}"
  using ordinary_map_live [of v0 ops] by (auto simp: inserted_not_erased_def dom_def)

subsection \<open>Lock and unlock restore the state; the number of buckets\<close>

lemma lock_guard_ctor_Some:
  "lock_guard_ctor i cm = Some cm1 \<Longrightarrow>
   \<not> mutex (buckets cm ! i) \<and> cm1 = update_bucket i (\<lambda>b. b\<lparr>mutex := True\<rparr>) cm"
  by (auto simp: lock_guard_ctor_def split: if_splits)

lemma lock_then_unlock:
  assumes "lock_guard_ctor i cm = Some cm1"
  shows "lock_guard_dtor i cm1 = cm" and "map' (buckets cm1 ! i) = map' (buckets cm ! i)"
proof -
  from lock_guard_ctor_Some [OF assms]
  have free: "\<not> mutex (buckets cm ! i)"
    and cm1: "cm1 = update_bucket i (\<lambda>b. b\<lparr>mutex := True\<rparr>) cm" by simp_all
  show "lock_guard_dtor i cm1 = cm"
  proof (cases "i < length (buckets cm)")
    case True
    then show ?thesis
      using free by (simp add: cm1 lock_guard_dtor_def update_bucket_def list_update_same_conv)
  next
    case False
    then show ?thesis
      by (simp add: cm1 lock_guard_dtor_def update_bucket_def list_update_beyond)
  qed
  show "map' (buckets cm1 ! i) = map' (buckets cm ! i)"
    by (cases "i < length (buckets cm)") (simp_all add: cm1 list_update_beyond)
qed

lemma BuildOrdinaryMap_loop_state:
  "BuildOrdinaryMap_loop ixs result cm = Inr (result', cm') \<Longrightarrow> cm' = cm"
proof (induction ixs arbitrary: result)
  case Nil
  then show ?case by simp
next
  case (Cons i rest)
  from Cons.prems obtain cm1 where l: "lock_guard_ctor i cm = Some cm1"
    by (auto split: option.splits)
  show ?case
    using Cons.prems Cons.IH by (simp add: l lock_then_unlock(1) [OF l])
qed

lemma access_update_length:
  "access_update T key f cm = Inr cm' \<Longrightarrow> length (buckets cm') = length (buckets cm)"
  by (auto simp: access_update_def operator_subscript_def Access_ctor_def ref_load_def
        ref_store_def Access_dtor_def lock_guard_dtor_def
      split: sum.splits option.splits prod.splits dest!: lock_guard_ctor_Some)

lemma erase_length:
  "erase T key cm = Inr cm' \<Longrightarrow> length (buckets cm') = length (buckets cm)"
  by (auto simp: erase_def lock_guard_dtor_def
      split: sum.splits option.splits dest!: lock_guard_ctor_Some)

lemma exec_length:
  "exec T op cm = Inr cm' \<Longrightarrow> length (buckets cm') = length (buckets cm)"
proof (cases op)
  case (Access_op key f)
  assume "exec T op cm = Inr cm'"
  then show ?thesis using access_update_length by (simp add: Access_op)
next
  case (Erase_op key)
  assume "exec T op cm = Inr cm'"
  then show ?thesis using erase_length by (simp add: Erase_op)
next
  case Snapshot_op
  assume "exec T op cm = Inr cm'"
  then show ?thesis
    by (auto simp: Snapshot_op BuildOrdinaryMap_def split: sum.splits
          dest: BuildOrdinaryMap_loop_state)
qed

lemma run_length:
  "run T ops cm = Inr cm' \<Longrightarrow> length (buckets cm') = length (buckets cm)"
proof (induction ops arbitrary: cm)
  case Nil
  then show ?case by simp
next
  case (Cons op ops)
  from Cons.prems obtain cm1 where e: "exec T op cm = Inr cm1" and r: "run T ops cm1 = Inr cm'"
    by (auto split: sum.splits)
  show ?case using Cons.IH [OF r] exec_length [OF e] by simp
qed

subsection \<open>A key is in its own bucket only\<close>

lemma partitioned_key_bucket:
  assumes p: "partitioned T cm" and b: "b \<in> set (buckets cm)" and k: "map' b key = Some v"
  shows "b = buckets cm ! partitionIndex (Key_is_signed T) key (length (buckets cm))"
proof -
  from b obtain j where j: "j < length (buckets cm)" and bj: "buckets cm ! j = b"
    by (auto simp: in_set_conv_nth)
  have "key \<in> dom (map' (buckets cm ! j))" using k bj by auto
  with p j have "partitionIndex (Key_is_signed T) key (length (buckets cm)) = j"
    by (simp add: partitioned_def)
  with bj show ?thesis by simp
qed

text \<open>Unfolding the operations on a concrete map.\<close>

lemmas run_defs =
  construct_and_run_def ConcurrentMap_ctor_def access_update_def operator_subscript_def
  GetBucket_def static_cast_uint64_def Access_ctor_def lock_guard_ctor_def lock_guard_dtor_def
  update_bucket_def map_subscript_def map_erase_def ref_load_def ref_store_def Access_dtor_def
  erase_def

lemma replicate_3: "replicate 3 x = [x, x, x]"
  by (simp add: numeral_3_eq_3)


subsection \<open>Threads: every step keeps the invariant\<close>

lemma sum_list_map_update:
  fixes f :: "'a \<Rightarrow> nat"
  shows "t < length xs \<Longrightarrow>
    sum_list (map f (xs[t := y])) + f (xs ! t) = sum_list (map f xs) + f y"
proof (induction xs arbitrary: t)
  case Nil
  then show ?case by simp
next
  case (Cons x xs)
  show ?case
  proof (cases t)
    case 0
    then show ?thesis by simp
  next
    case (Suc t')
    with Cons.prems have "t' < length xs" by simp
    from Cons.IH [OF this] show ?thesis by (simp add: Suc)
  qed
qed

lemma pending_update:
  "t < length ths \<Longrightarrow>
   pending (ths[t := th']) key + pending1 (ths ! t) key = pending ths key + pending1 th' key"
  unfolding pending_def by (rule sum_list_map_update)

lemma pending_update_same:
  "t < length ths \<Longrightarrow> pending1 th' key = pending1 (ths ! t) key \<Longrightarrow>
   pending (ths[t := th']) key = pending ths key"
  using pending_update [of t ths th' key] by simp

lemma holders_update_same:
  "t < length ths \<Longrightarrow> holding (pc th') = holding (pc (ths ! t)) \<Longrightarrow>
   map (\<lambda>th. holding (pc th)) (ths[t := th']) = map (\<lambda>th. holding (pc th)) ths"
  by (simp add: map_update list_update_same_conv)

lemma unique_holders_release:
  "unique_holders hs \<Longrightarrow> unique_holders (hs[t := None])"
  unfolding unique_holders_def
  by (metis length_list_update nth_list_update_eq nth_list_update_neq)

lemma unique_holders_acquire:
  "unique_holders hs \<Longrightarrow> Some i \<notin> set hs \<Longrightarrow> unique_holders (hs[t := Some i])"
  unfolding unique_holders_def
  by (metis length_list_update nth_list_update_eq nth_list_update_neq nth_mem)

lemma pc_ok_update_other:
  "holding p \<noteq> Some i \<Longrightarrow> pc_ok T n (update_bucket i f cm) p = pc_ok T n cm p"
  by (cases p) (auto simp: access_ok_def)

lemma pc_ok_mutex:
  "pc_ok T n cm p \<Longrightarrow> holding p = Some i \<Longrightarrow> mutex (buckets cm ! i)"
  by (cases p) (auto simp: access_ok_def)

lemma pc_ok_holding_bound:
  "0 < n \<Longrightarrow> pc_ok T n cm p \<Longrightarrow> holding p = Some i \<Longrightarrow> i < unat n"
  by (cases p) (auto simp: access_ok_def partitionIndex_def word_less_nat_alt)

lemma thread_step_cases:
  assumes "thread_step T th cm = Inr (Some (th', cm'))"
  obtains
    (getbucket) key rest i where "pc th = Idle" "todo th = key # rest"
      "GetBucket T key cm = Inr i" "th' = \<lparr>pc = Lock_wait i key, todo = rest\<rparr>" "cm' = cm"
  | (lock) i key where "pc th = Lock_wait i key" "\<not> mutex (buckets cm ! i)"
      "th' = th\<lparr>pc := Locked i key\<rparr>" "cm' = update_bucket i (\<lambda>b. b\<lparr>mutex := True\<rparr>) cm"
  | (subscript) i key where "pc th = Locked i key"
      "th' = th\<lparr>pc := Bound \<lparr>guard = i, ref_to_value = (i, key)\<rparr>\<rparr>"
      "cm' = update_bucket i (\<lambda>b. b\<lparr>map' := map_subscript (Value_init T) key (map' b)\<rparr>) cm"
  | (load) a v where "pc th = Bound a" "ref_load (ref_to_value a) cm = Inr v"
      "th' = th\<lparr>pc := Loaded a v\<rparr>" "cm' = cm"
  | (store) a v v' where "pc th = Loaded a v" "increment v = Inr v'"
      "ref_store (ref_to_value a) v' cm = Inr cm'" "th' = th\<lparr>pc := Stored a\<rparr>"
  | (unlock) a where "pc th = Stored a" "th' = th\<lparr>pc := Idle\<rparr>" "cm' = Access_dtor a cm"
proof (cases "pc th")
  case Idle
  with assms show ?thesis
    by (auto simp: thread_step_def split: list.splits sum.splits intro: getbucket)
next
  case (Lock_wait i key)
  with assms show ?thesis
    by (auto simp: thread_step_def split: option.splits dest!: lock_guard_ctor_Some intro: lock)
next
  case (Locked i key)
  with assms show ?thesis
    by (auto simp: thread_step_def intro: subscript)
next
  case (Bound a)
  with assms show ?thesis
    by (auto simp: thread_step_def split: sum.splits intro: load)
next
  case (Loaded a v)
  with assms show ?thesis
    by (auto simp: thread_step_def split: sum.splits intro: store)
next
  case (Stored a)
  with assms show ?thesis
    by (auto simp: thread_step_def intro: unlock)
qed

lemma other_thread:
  assumes "x \<in> set (ths[t := th'])" and "x \<noteq> th'"
  obtains t' where "t' < length ths" and "t' \<noteq> t" and "ths ! t' = x"
proof -
  from assms(1) obtain t' where t': "t' < length ths" and e: "ths[t := th'] ! t' = x"
    by (auto simp: in_set_conv_nth)
  with assms(2) have "t' \<noteq> t" by auto
  with t' e that show ?thesis by simp
qed

lemma not_holding_other:
  assumes "unique_holders (map (\<lambda>th. holding (pc th)) ths)"
    and "t < length ths" and "holding (pc (ths ! t)) = Some i"
    and "t' < length ths" and "t' \<noteq> t"
  shows "holding (pc (ths ! t')) \<noteq> Some i"
  using assms unfolding unique_holders_def
  by (metis length_map nth_map option.distinct(1))

lemma ok_frame_holder:
  assumes ok: "\<forall>th \<in> set ths. pc_ok T n cm (pc th)"
    and uniq: "unique_holders (map (\<lambda>th. holding (pc th)) ths)"
    and t: "t < length ths" and h: "holding (pc (ths ! t)) = Some i"
    and new: "pc_ok T n (update_bucket i f cm) (pc th')"
  shows "\<forall>th \<in> set (ths[t := th']). pc_ok T n (update_bucket i f cm) (pc th)"
proof
  fix x assume x: "x \<in> set (ths[t := th'])"
  show "pc_ok T n (update_bucket i f cm) (pc x)"
  proof (cases "x = th'")
    case True
    with new show ?thesis by simp
  next
    case False
    from other_thread [OF x False]
    obtain t' where t': "t' < length ths" "t' \<noteq> t" "ths ! t' = x" by blast
    from not_holding_other [OF uniq t h t'(1,2)] t'(3)
    have "holding (pc x) \<noteq> Some i" by simp
    moreover have "pc_ok T n cm (pc x)" using ok t' by auto
    ultimately show ?thesis by (simp add: pc_ok_update_other)
  qed
qed

lemma ok_frame_free:
  assumes ok: "\<forall>th \<in> set ths. pc_ok T n cm (pc th)"
    and free: "\<not> mutex (buckets cm ! i)"
    and new: "pc_ok T n (update_bucket i f cm) (pc th')"
  shows "\<forall>th \<in> set (ths[t := th']). pc_ok T n (update_bucket i f cm) (pc th)"
proof
  fix x assume x: "x \<in> set (ths[t := th'])"
  show "pc_ok T n (update_bucket i f cm) (pc x)"
  proof (cases "x = th'")
    case True
    with new show ?thesis by simp
  next
    case False
    with x have xs: "x \<in> set ths" using set_update_subset_insert by fastforce
    then have "pc_ok T n cm (pc x)" using ok by simp
    moreover from this free have "holding (pc x) \<noteq> Some i" using pc_ok_mutex by blast
    ultimately show ?thesis by (simp add: pc_ok_update_other)
  qed
qed

lemma ok_frame_same:
  assumes ok: "\<forall>th \<in> set ths. pc_ok T n cm (pc th)" and new: "pc_ok T n cm (pc th')"
  shows "\<forall>th \<in> set (ths[t := th']). pc_ok T n cm (pc th)"
proof
  fix x assume "x \<in> set (ths[t := th'])"
  then have "x = th' \<or> x \<in> set ths" using set_update_subset_insert by fastforce
  with ok new show "pc_ok T n cm (pc x)" by auto
qed

lemma held_keep:
  assumes "x \<in> set hs" and "hs ! t \<noteq> x"
  shows "x \<in> set (hs[t := y])"
proof -
  from assms(1) obtain t' where t': "t' < length hs" "hs ! t' = x"
    by (auto simp: in_set_conv_nth)
  with assms(2) have "t' \<noteq> t" by auto
  with t' have "hs[t := y] ! t' = x" "t' < length (hs[t := y])" by simp_all
  then show ?thesis by (metis nth_mem)
qed

lemma pending1_le_pending: "t < length ths \<Longrightarrow> pending1 (ths ! t) key \<le> pending ths key"
  unfolding pending_def by (rule member_le_sum_list) simp_all

lemma snapshot_of_same_maps:
  assumes "\<And>b. map' (f b) = map' b"
  shows "snapshot_of T (update_bucket i f cm) = snapshot_of T cm"
proof
  fix key :: "'a word"
  let ?j = "partitionIndex (Key_is_signed T) key (length (buckets cm))"
  have "map' ((buckets cm)[i := f (buckets cm ! i)] ! ?j) = map' (buckets cm ! ?j)"
    by (cases "?j = i \<and> i < length (buckets cm)") (auto simp: assms list_update_beyond)
  then show "snapshot_of T (update_bucket i f cm) key = snapshot_of T cm key"
    by (simp add: snapshot_of_def)
qed

lemma partitioned_same_maps:
  assumes p: "partitioned T cm" and f: "\<And>b. map' (f b) = map' b"
  shows "partitioned T (update_bucket i f cm)"
  unfolding partitioned_def
proof (intro allI impI ballI)
  fix j key
  assume j: "j < length (buckets (update_bucket i f cm))"
    and k: "key \<in> dom (map' (buckets (update_bucket i f cm) ! j))"
  have "map' ((buckets cm)[i := f (buckets cm ! i)] ! j) = map' (buckets cm ! j)"
    by (cases "j = i \<and> i < length (buckets cm)") (auto simp: f list_update_beyond)
  with k have "key \<in> dom (map' (buckets cm ! j))" by simp
  with p j show "partitionIndex (Key_is_signed T) key (length (buckets (update_bucket i f cm))) = j"
    by (simp add: partitioned_def)
qed

lemma partitioned_update_map:
  assumes p: "partitioned T cm"
    and i: "i = partitionIndex (Key_is_signed T) key (length (buckets cm))"
    and d: "dom (map' (f (buckets cm ! i))) \<subseteq> insert key (dom (map' (buckets cm ! i)))"
  shows "partitioned T (update_bucket i f cm)"
  unfolding partitioned_def
proof (intro allI impI ballI)
  fix j k
  assume j: "j < length (buckets (update_bucket i f cm))"
    and k: "k \<in> dom (map' (buckets (update_bucket i f cm) ! j))"
  show "partitionIndex (Key_is_signed T) k (length (buckets (update_bucket i f cm))) = j"
  proof (cases "j = i")
    case True
    with k j have "k \<in> dom (map' (f (buckets cm ! i)))" by simp
    with d have "k = key \<or> k \<in> dom (map' (buckets cm ! i))" by auto
    then show ?thesis using p j i True by (auto simp: partitioned_def)
  next
    case False
    with k j have "k \<in> dom (map' (buckets cm ! j))" by simp
    then show ?thesis using p j by (simp add: partitioned_def)
  qed
qed

lemma invI:
  assumes "0 < n" "length (buckets cm) = unat n" "Value_init T = 0" "partitioned T cm"
    "\<forall>key. tot key < 2 ^ 31"
    "\<forall>th \<in> set ths. pc_ok T n cm (pc th)"
    "unique_holders (map (\<lambda>th. holding (pc th)) ths)"
    "\<forall>i < unat n. mutex (buckets cm ! i) \<longrightarrow> Some i \<in> set (map (\<lambda>th. holding (pc th)) ths)"
    "\<forall>key. cur T cm key + pending ths key = tot key"
    "\<forall>key. snapshot_of T cm key \<noteq> None \<longrightarrow> 0 < tot key"
  shows "inv T n tot (ths, cm)"
  using assms by (simp add: inv_def)

lemma invD:
  assumes "inv T n tot (ths, cm)"
  shows "0 < n" "length (buckets cm) = unat n" "Value_init T = 0" "partitioned T cm"
    "\<forall>key. tot key < 2 ^ 31"
    "\<forall>th \<in> set ths. pc_ok T n cm (pc th)"
    "unique_holders (map (\<lambda>th. holding (pc th)) ths)"
    "\<forall>i < unat n. mutex (buckets cm ! i) \<longrightarrow> Some i \<in> set (map (\<lambda>th. holding (pc th)) ths)"
    "\<forall>key. cur T cm key + pending ths key = tot key"
    "\<forall>key. snapshot_of T cm key \<noteq> None \<longrightarrow> 0 < tot key"
  using assms by (simp_all add: inv_def)

lemma inv_getbucket:
  assumes I: "inv T n tot (ths, cm)" and t: "t < length ths"
    and pc: "pc (ths ! t) = Idle" and td: "todo (ths ! t) = key # rest"
    and gb: "GetBucket T key cm = Inr i"
  shows "inv T n tot (ths[t := \<lparr>pc = Lock_wait i key, todo = rest\<rparr>], cm)"
proof -
  note D = invD [OF I]
  let ?th' = "\<lparr>pc = Lock_wait i key, todo = rest\<rparr>"
  have i: "i = partitionIndex (Key_is_signed T) key (unat n)"
    using GetBucket_partitionIndex(1) [OF D(2) D(1), of T key] gb by simp
  have ok: "\<forall>th \<in> set (ths[t := ?th']). pc_ok T n cm (pc th)"
    by (rule ok_frame_same [OF D(6)]) (simp add: i)
  have hs: "map (\<lambda>th. holding (pc th)) (ths[t := ?th']) = map (\<lambda>th. holding (pc th)) ths"
    by (rule holders_update_same [OF t]) (simp add: pc)
  have pd: "pending (ths[t := ?th']) k = pending ths k" for k
    by (rule pending_update_same [OF t]) (simp add: pending1_def pc td)
  show ?thesis
    unfolding inv_def using D ok by (simp add: hs pd)
qed

lemma inv_lock:
  assumes I: "inv T n tot (ths, cm)" and t: "t < length ths"
    and pc: "pc (ths ! t) = Lock_wait i key" and free: "\<not> mutex (buckets cm ! i)"
  shows "inv T n tot (ths[t := (ths ! t)\<lparr>pc := Locked i key\<rparr>],
           update_bucket i (\<lambda>b. b\<lparr>mutex := True\<rparr>) cm)"
proof -
  note D = invD [OF I]
  let ?th' = "(ths ! t)\<lparr>pc := Locked i key\<rparr>"
  let ?cm' = "update_bucket i (\<lambda>b. b\<lparr>mutex := True\<rparr>) cm"
  let ?hs = "map (\<lambda>th. holding (pc th)) ths"
  have "pc_ok T n cm (pc (ths ! t))" using D(6) t by simp
  then have i: "i = partitionIndex (Key_is_signed T) key (unat n)" by (simp add: pc)
  have lt: "i < length (buckets cm)"
    using GetBucket_partitionIndex(2) [OF D(2) D(1), of T key] i D(2) by simp
  have ok: "\<forall>th \<in> set (ths[t := ?th']). pc_ok T n ?cm' (pc th)"
    by (rule ok_frame_free [OF D(6) free]) (simp add: i [symmetric] lt)
  have nobody: "Some i \<notin> set ?hs"
  proof
    assume "Some i \<in> set ?hs"
    then obtain th where "th \<in> set ths" "holding (pc th) = Some i" by auto
    with D(6) free show False using pc_ok_mutex by blast
  qed
  have hs: "map (\<lambda>th. holding (pc th)) (ths[t := ?th']) = ?hs[t := Some i]"
    by (simp add: map_update)
  have uniq: "unique_holders (?hs[t := Some i])"
    by (rule unique_holders_acquire [OF D(7) nobody])
  have held: "\<forall>j < unat n. mutex (buckets ?cm' ! j) \<longrightarrow> Some j \<in> set (?hs[t := Some i])"
  proof (intro allI impI)
    fix j assume j: "j < unat n" and m: "mutex (buckets ?cm' ! j)"
    show "Some j \<in> set (?hs[t := Some i])"
    proof (cases "j = i")
      case True
      then show ?thesis using t by (simp add: set_update_memI)
    next
      case False
      with m have "mutex (buckets cm ! j)" by simp
      with D(8) j have "Some j \<in> set ?hs" by simp
      moreover have "?hs ! t \<noteq> Some j" using t by (simp add: pc)
      ultimately show ?thesis by (rule held_keep)
    qed
  qed
  have sn: "snapshot_of T ?cm' = snapshot_of T cm"
    by (rule snapshot_of_same_maps) simp
  have pt: "partitioned T ?cm'"
    by (rule partitioned_same_maps [OF D(4)]) simp
  have pd: "pending (ths[t := ?th']) k = pending ths k" for k
    by (rule pending_update_same [OF t]) (simp add: pending1_def pc)
  show ?thesis
    unfolding inv_def using D ok uniq held pt by (simp add: hs sn pd cur_def)
qed

lemma inv_unlock:
  assumes I: "inv T n tot (ths, cm)" and t: "t < length ths"
    and pc: "pc (ths ! t) = Stored a"
  shows "inv T n tot (ths[t := (ths ! t)\<lparr>pc := Idle\<rparr>], Access_dtor a cm)"
proof -
  note D = invD [OF I]
  let ?th' = "(ths ! t)\<lparr>pc := Idle\<rparr>"
  let ?i = "guard a"
  let ?cm' = "update_bucket ?i (\<lambda>b. b\<lparr>mutex := False\<rparr>) cm"
  let ?hs = "map (\<lambda>th. holding (pc th)) ths"
  have cm': "Access_dtor a cm = ?cm'" by (simp add: Access_dtor_def lock_guard_dtor_def)
  have okt: "pc_ok T n cm (pc (ths ! t))" using D(6) t by simp
  have h: "holding (pc (ths ! t)) = Some ?i" by (simp add: pc)
  have lt: "?i < length (buckets cm)"
    using pc_ok_holding_bound [OF D(1) okt h] D(2) by simp
  have ok: "\<forall>th \<in> set (ths[t := ?th']). pc_ok T n ?cm' (pc th)"
    by (rule ok_frame_holder [OF D(6) D(7) t h]) simp
  have hs: "map (\<lambda>th. holding (pc th)) (ths[t := ?th']) = ?hs[t := None]"
    by (simp add: map_update)
  have uniq: "unique_holders (?hs[t := None])"
    by (rule unique_holders_release [OF D(7)])
  have held: "\<forall>j < unat n. mutex (buckets ?cm' ! j) \<longrightarrow> Some j \<in> set (?hs[t := None])"
  proof (intro allI impI)
    fix j assume j: "j < unat n" and m: "mutex (buckets ?cm' ! j)"
    have ne: "j \<noteq> ?i" using m lt by auto
    with m have "mutex (buckets cm ! j)" by simp
    with D(8) j have "Some j \<in> set ?hs" by simp
    moreover have "?hs ! t \<noteq> Some j" using t ne by (simp add: pc)
    ultimately show "Some j \<in> set (?hs[t := None])" by (rule held_keep)
  qed
  have sn: "snapshot_of T ?cm' = snapshot_of T cm"
    by (rule snapshot_of_same_maps) simp
  have pt: "partitioned T ?cm'"
    by (rule partitioned_same_maps [OF D(4)]) simp
  have pd: "pending (ths[t := ?th']) k = pending ths k" for k
    by (rule pending_update_same [OF t]) (simp add: pending1_def pc)
  show ?thesis
    unfolding inv_def cm' using D ok uniq held pt by (simp add: hs sn pd cur_def)
qed

lemma inv_load:
  assumes I: "inv T n tot (ths, cm)" and t: "t < length ths"
    and pc: "pc (ths ! t) = Bound a" and ld: "ref_load (ref_to_value a) cm = Inr v"
  shows "inv T n tot (ths[t := (ths ! t)\<lparr>pc := Loaded a v\<rparr>], cm)"
proof -
  note D = invD [OF I]
  let ?th' = "(ths ! t)\<lparr>pc := Loaded a v\<rparr>"
  have okt: "access_ok T n cm a" using D(6) t pc by (metis nth_mem pc_ok.simps(4))
  have "map' (buckets cm ! guard a) (snd (ref_to_value a)) = Some v"
    using ld okt by (auto simp: ref_load_def access_ok_def split: option.splits)
  then have ok: "\<forall>th \<in> set (ths[t := ?th']). pc_ok T n cm (pc th)"
    using okt by (intro ok_frame_same [OF D(6)]) simp
  have hs: "map (\<lambda>th. holding (pc th)) (ths[t := ?th']) = map (\<lambda>th. holding (pc th)) ths"
    by (rule holders_update_same [OF t]) (simp add: pc)
  have pd: "pending (ths[t := ?th']) k = pending ths k" for k
    by (rule pending_update_same [OF t]) (simp add: pending1_def pc)
  show ?thesis
    unfolding inv_def using D ok by (simp add: hs pd)
qed

lemma inv_subscript:
  assumes I: "inv T n tot (ths, cm)" and t: "t < length ths"
    and pc: "pc (ths ! t) = Locked i key"
  shows "inv T n tot
     (ths[t := (ths ! t)\<lparr>pc := Bound \<lparr>guard = i, ref_to_value = (i, key)\<rparr>\<rparr>],
      update_bucket i (\<lambda>b. b\<lparr>map' := map_subscript (Value_init T) key (map' b)\<rparr>) cm)"
proof -
  note D = invD [OF I]
  let ?a = "\<lparr>guard = i, ref_to_value = (i, key)\<rparr>"
  let ?th' = "(ths ! t)\<lparr>pc := Bound ?a\<rparr>"
  let ?f = "\<lambda>b. b\<lparr>map' := map_subscript (Value_init T) key (map' b)\<rparr>"
  let ?cm' = "update_bucket i ?f cm"
  have okt: "pc_ok T n cm (pc (ths ! t))" using D(6) t by simp
  then have i: "i = partitionIndex (Key_is_signed T) key (unat n)"
    and held: "mutex (buckets cm ! i)" by (auto simp: pc)
  have h: "holding (pc (ths ! t)) = Some i" by (simp add: pc)
  have lt: "i < length (buckets cm)"
    using pc_ok_holding_bound [OF D(1) okt h] D(2) by simp
  have ok: "\<forall>th \<in> set (ths[t := ?th']). pc_ok T n ?cm' (pc th)"
    by (rule ok_frame_holder [OF D(6) D(7) t h])
       (simp add: access_ok_def i [symmetric] lt held map_subscript_def split: option.splits)
  have hs: "map (\<lambda>th. holding (pc th)) (ths[t := ?th']) = map (\<lambda>th. holding (pc th)) ths"
    by (rule holders_update_same [OF t]) (simp add: pc)
  have mx: "mutex (buckets ?cm' ! j) = mutex (buckets cm ! j)" for j
    using lt by (cases "j = i") simp_all
  have pt: "partitioned T ?cm'"
    by (rule partitioned_update_map [OF D(4), of i key])
       (auto simp: i D(2) map_subscript_def split: option.splits)
  have sn: "snapshot_of T ?cm' = (snapshot_of T cm)(key := map' (?f (buckets cm ! i)) key)"
    by (rule snapshot_of_update_bucket [OF D(2) D(1) i])
       (simp add: map_subscript_def split: option.splits)
  have here: "snapshot_of T cm key = map' (buckets cm ! i) key"
    by (simp add: snapshot_of_def D(2) i)
  have cr: "cur T ?cm' k = cur T cm k" for k
    unfolding cur_def sn
    by (cases "k = key") (simp_all add: here map_subscript_def D(3) split: option.splits)
  have pd: "pending (ths[t := ?th']) k = pending ths k" for k
    by (rule pending_update_same [OF t]) (simp add: pending1_def pc)
  have "1 \<le> pending1 (ths ! t) key" by (simp add: pending1_def pc)
  with pending1_le_pending [OF t, of key] have "1 \<le> pending ths key" by simp
  with D(9) have tk: "0 < tot key" by (metis add_gr_0 less_eq_Suc_le One_nat_def)
  have ps: "\<forall>k. snapshot_of T ?cm' k \<noteq> None \<longrightarrow> 0 < tot k"
    unfolding sn using D(10) tk by simp
  have len: "length (buckets ?cm') = unat n" using D(2) by simp
  have uniq: "unique_holders (map (\<lambda>th. holding (pc th)) (ths[t := ?th']))"
    unfolding hs by (rule D(7))
  have hd: "\<forall>j < unat n. mutex (buckets ?cm' ! j)
      \<longrightarrow> Some j \<in> set (map (\<lambda>th. holding (pc th)) (ths[t := ?th']))"
    unfolding hs mx by (rule D(8))
  have cnt: "\<forall>k. cur T ?cm' k + pending (ths[t := ?th']) k = tot k"
    unfolding cr pd by (rule D(9))
  show ?thesis
    by (rule invI [OF D(1) len D(3) pt D(5) ok uniq hd cnt ps])
qed

lemma increment_Inr: "increment v = Inr v' \<Longrightarrow> v' = v + 1"
  by (simp add: increment_def split: if_splits)

lemma inv_store:
  assumes I: "inv T n tot (ths, cm)" and t: "t < length ths"
    and pc: "pc (ths ! t) = Loaded a v" and inc: "increment v = Inr v'"
    and st: "ref_store (ref_to_value a) v' cm = Inr cm'"
  shows "inv T n tot (ths[t := (ths ! t)\<lparr>pc := Stored a\<rparr>], cm')"
proof -
  note D = invD [OF I]
  let ?th' = "(ths ! t)\<lparr>pc := Stored a\<rparr>"
  let ?i = "guard a"
  let ?key = "snd (ref_to_value a)"
  let ?f = "\<lambda>b. b\<lparr>map' := (map' b)(?key \<mapsto> v')\<rparr>"
  have okt: "pc_ok T n cm (pc (ths ! t))" using D(6) t by simp
  then have aok: "access_ok T n cm a"
    and val: "map' (buckets cm ! ?i) ?key = Some v" by (simp_all add: pc)
  have i: "?i = partitionIndex (Key_is_signed T) ?key (unat n)"
    and fr: "fst (ref_to_value a) = ?i" and held: "mutex (buckets cm ! ?i)"
    using aok by (auto simp: access_ok_def)
  have cm': "cm' = update_bucket ?i ?f cm"
    using st by (simp add: ref_store_def fr val)
  have h: "holding (pc (ths ! t)) = Some ?i" by (simp add: pc)
  have lt: "?i < length (buckets cm)"
    using pc_ok_holding_bound [OF D(1) okt h] D(2) by simp
  have ok: "\<forall>th \<in> set (ths[t := ?th']). pc_ok T n (update_bucket ?i ?f cm) (pc th)"
    by (rule ok_frame_holder [OF D(6) D(7) t h])
       (simp add: access_ok_def i [symmetric] fr lt held)
  have hs: "map (\<lambda>th. holding (pc th)) (ths[t := ?th']) = map (\<lambda>th. holding (pc th)) ths"
    by (rule holders_update_same [OF t]) (simp add: pc)
  have mx: "mutex (buckets (update_bucket ?i ?f cm) ! j) = mutex (buckets cm ! j)" for j
    using lt by (cases "j = ?i") simp_all
  have pt: "partitioned T (update_bucket ?i ?f cm)"
    by (rule partitioned_update_map [OF D(4), of ?i ?key]) (auto simp: i [symmetric] D(2) val)
  have sn: "snapshot_of T (update_bucket ?i ?f cm) = (snapshot_of T cm)(?key \<mapsto> v')"
    using snapshot_of_update_bucket [OF D(2) D(1) i, of ?f] by simp
  have here: "snapshot_of T cm ?key = Some v"
    using val by (simp add: snapshot_of_def D(2) i [symmetric])
  have p1: "pending1 (ths ! t) ?key = Suc (pending1 ?th' ?key)"
    by (simp add: pending1_def pc)
  have pk: "pending ths ?key = Suc (pending (ths[t := ?th']) ?key)"
    using pending_update [OF t, of ?th' ?key] p1 by simp
  have po: "pending (ths[t := ?th']) k = pending ths k" if "k \<noteq> ?key" for k
    by (rule pending_update_same [OF t]) (use that in \<open>auto simp: pending1_def pc\<close>)
  have "unat v + pending ths ?key = tot ?key"
    using D(9) [rule_format, of ?key] by (simp add: cur_def here)
  moreover have "tot ?key < 2 ^ 31" using D(5) by simp
  ultimately have small: "unat v + 1 < 2 ^ 32" by simp
  have v': "unat v' = unat v + 1"
    using small increment_Inr [OF inc] by (simp add: unat_word_ariths)
  have cnt: "\<forall>k. cur T (update_bucket ?i ?f cm) k + pending (ths[t := ?th']) k = tot k"
  proof
    fix k
    show "cur T (update_bucket ?i ?f cm) k + pending (ths[t := ?th']) k = tot k"
  proof (cases "k = ?key")
    case True
    have "cur T (update_bucket ?i ?f cm) ?key = unat v + 1"
      by (simp add: cur_def sn v')
    moreover have "cur T cm ?key = unat v" by (simp add: cur_def here)
    ultimately show ?thesis using D(9) [rule_format, of ?key] pk True by simp
  next
    case False
    then have "cur T (update_bucket ?i ?f cm) k = cur T cm k" by (simp add: cur_def sn)
    with D(9) [rule_format, of k] po [OF False] show ?thesis by simp
  qed
  qed
  have ps: "\<forall>k. snapshot_of T (update_bucket ?i ?f cm) k \<noteq> None \<longrightarrow> 0 < tot k"
    unfolding sn using D(10) here by auto
  have len: "length (buckets (update_bucket ?i ?f cm)) = unat n" using D(2) by simp
  have uniq: "unique_holders (map (\<lambda>th. holding (pc th)) (ths[t := ?th']))"
    unfolding hs by (rule D(7))
  have hd: "\<forall>j < unat n. mutex (buckets (update_bucket ?i ?f cm) ! j)
      \<longrightarrow> Some j \<in> set (map (\<lambda>th. holding (pc th)) (ths[t := ?th']))"
    unfolding hs mx by (rule D(8))
  show ?thesis
    unfolding cm' by (rule invI [OF D(1) len D(3) pt D(5) ok uniq hd cnt ps])
qed

lemma inv_thread_step:
  assumes I: "inv T n tot (ths, cm)" and t: "t < length ths"
    and s: "thread_step T (ths ! t) cm = Inr (Some (th', cm'))"
  shows "inv T n tot (ths[t := th'], cm')"
  using s
proof (cases rule: thread_step_cases)
  case (getbucket key rest i)
  then show ?thesis using inv_getbucket [OF I t] by simp
next
  case (lock i key)
  then show ?thesis using inv_lock [OF I t] by simp
next
  case (subscript i key)
  then show ?thesis using inv_subscript [OF I t] by simp
next
  case (load a v)
  then show ?thesis using inv_load [OF I t] by simp
next
  case (store a v v')
  then show ?thesis using inv_store [OF I t] by simp
next
  case (unlock a)
  then show ?thesis using inv_unlock [OF I t] by simp
qed

lemma inv_sched_step: "inv T n tot s \<Longrightarrow> inv T n tot (sched_step T t s)"
  using inv_thread_step [of T n tot "fst s" "snd s" t]
  by (auto simp: sched_step_def split: sum.splits option.splits)

lemma inv_run_schedule: "inv T n tot s \<Longrightarrow> inv T n tot (run_schedule T sched s)"
  by (induction sched arbitrary: s) (simp_all add: inv_sched_step)

lemma sum_list_count_list_concat:
  "sum_list (map (\<lambda>ks. count_list ks key) keyss) = count_list (concat keyss) key"
  by (induction keyss) simp_all

lemma pending_spawn: "pending (spawn keyss) key = increments keyss key"
  by (simp add: spawn_def pending_def pending1_def increments_def o_def sum_list_count_list_concat)

lemma inv_spawn:
  assumes "0 < n" and "Value_init T = 0" and "\<forall>key. increments keyss key < 2 ^ 31"
    and "ConcurrentMap_ctor n = Inr cm0"
  shows "inv T n (increments keyss) (spawn keyss, cm0)"
proof -
  have cm0: "cm0 = \<lparr>buckets = replicate (unat n) \<lparr>mutex = False, map' = Map.empty\<rparr>\<rparr>"
    using assms(4) by (simp add: ConcurrentMap_ctor_def)
  have "partitionIndex (Key_is_signed T) key (unat n) < unat n" for key :: "'a word"
    using assms(1) by (simp add: partitionIndex_def word_less_nat_alt)
  then have sn: "snapshot_of T cm0 = Map.empty"
    by (auto simp: snapshot_of_def cm0)
  have hs: "map (\<lambda>th. holding (pc th)) (spawn keyss) = replicate (length keyss) None"
    by (simp add: spawn_def o_def map_replicate_const)
  have ok: "\<forall>th \<in> set (spawn keyss). pc_ok T n cm0 (pc th)"
    by (auto simp: spawn_def)
  show ?thesis
    unfolding inv_def using assms(1-3) ok
    by (auto simp: cm0 partitioned_def unique_holders_def pending_spawn cur_def sn [unfolded cm0] hs)
qed

subsection \<open>Threads: the map when all have finished, progress and completion\<close>

lemma finished_pending: "all_finished ths \<Longrightarrow> pending ths key = 0"
  by (induction ths) (simp_all add: all_finished_def finished_def pending_def pending1_def)

lemma finished_holders:
  "all_finished ths \<Longrightarrow> Some i \<notin> set (map (\<lambda>th. holding (pc th)) ths)"
  by (induction ths) (simp_all add: all_finished_def finished_def)

lemma inv_finished_constructed:
  assumes I: "inv T n tot (ths, cm)" and f: "all_finished ths"
  shows "constructed T n cm"
proof -
  note D = invD [OF I]
  have "quiescent cm"
    unfolding quiescent_def
  proof
    fix b assume "b \<in> set (buckets cm)"
    then obtain i where i: "i < length (buckets cm)" and b: "buckets cm ! i = b"
      by (auto simp: in_set_conv_nth)
    show "\<not> mutex b"
    proof
      assume "mutex b"
      with D(8) i b D(2) have "Some i \<in> set (map (\<lambda>th. holding (pc th)) ths)" by simp
      with finished_holders [OF f] show False by blast
    qed
  qed
  with D(1,2,4) show ?thesis by (simp add: constructed_def)
qed

lemma inv_finished_snapshot:
  assumes I: "inv T n tot (ths, cm)" and f: "all_finished ths"
  shows "snapshot_of T cm = (\<lambda>key. if tot key = 0 then None else Some (word_of_nat (tot key)))"
proof
  fix key
  note D = invD [OF I]
  have c: "cur T cm key = tot key"
    using D(9) [rule_format, of key] finished_pending [OF f, of key] by simp
  show "snapshot_of T cm key = (if tot key = 0 then None else Some (word_of_nat (tot key)))"
  proof (cases "snapshot_of T cm key")
    case None
    with c show ?thesis by (simp add: cur_def)
  next
    case (Some v)
    with c have "unat v = tot key" by (simp add: cur_def)
    then have "v = word_of_nat (tot key)" by (simp flip: \<open>unat v = tot key\<close>)
    moreover have "0 < tot key" using D(10) Some by simp
    ultimately show ?thesis using Some by simp
  qed
qed

lemma inv_finished_BuildOrdinaryMap:
  assumes I: "inv T n tot (ths, cm)" and f: "all_finished ths"
  shows "BuildOrdinaryMap cm
    = Inr (\<lambda>key. if tot key = 0 then None else Some (word_of_nat (tot key)), cm)"
  using BuildOrdinaryMap_constructed [OF inv_finished_constructed [OF I f]]
    inv_finished_snapshot [OF I f] by simp

lemma holder_can_step:
  assumes I: "inv T n tot (ths, cm)" and t: "t < length ths"
    and h: "holding (pc (ths ! t)) = Some i"
  shows "\<exists>th' cm'. thread_step T (ths ! t) cm = Inr (Some (th', cm'))"
proof -
  note D = invD [OF I]
  have okt: "pc_ok T n cm (pc (ths ! t))" using D(6) t by simp
  show ?thesis
  proof (cases "pc (ths ! t)")
    case Idle
    with h show ?thesis by simp
  next
    case (Lock_wait j key)
    with h show ?thesis by simp
  next
    case (Locked j key)
    then show ?thesis by (simp add: thread_step_def)
  next
    case (Bound a)
    with okt have "map' (buckets cm ! fst (ref_to_value a)) (snd (ref_to_value a)) \<noteq> None"
      by (auto simp: access_ok_def)
    then show ?thesis by (auto simp: thread_step_def Bound ref_load_def)
  next
    case (Loaded a v)
    let ?key = "snd (ref_to_value a)"
    from okt Loaded have aok: "access_ok T n cm a"
      and val: "map' (buckets cm ! guard a) ?key = Some v" by simp_all
    have fr: "fst (ref_to_value a) = guard a"
      and g: "guard a = partitionIndex (Key_is_signed T) ?key (unat n)"
      using aok by (auto simp: access_ok_def)
    have here: "snapshot_of T cm ?key = Some v"
      using val by (simp add: snapshot_of_def D(2) g [symmetric])
    have "1 \<le> pending1 (ths ! t) ?key" by (simp add: pending1_def Loaded)
    with pending1_le_pending [OF t, of ?key] have "1 \<le> pending ths ?key" by simp
    moreover have "unat v + pending ths ?key = tot ?key"
      using D(9) [rule_format, of ?key] by (simp add: cur_def here)
    moreover have "tot ?key < 2 ^ 31" using D(5) by simp
    ultimately have "unat v < 2147483647" by simp
    then have "v \<noteq> 2147483647" by auto
    then show ?thesis
      by (simp add: thread_step_def Loaded increment_def ref_store_def fr val)
  next
    case (Stored a)
    then show ?thesis by (simp add: thread_step_def)
  qed
qed

lemma no_fault:
  assumes I: "inv T n tot (ths, cm)" and t: "t < length ths"
  shows "\<not> isl (thread_step T (ths ! t) cm)"
proof (cases "holding (pc (ths ! t))")
  case (Some i)
  from holder_can_step [OF I t Some] show ?thesis by auto
next
  case None
  note D = invD [OF I]
  show ?thesis
  proof (cases "pc (ths ! t)")
    case Idle
    then show ?thesis
      by (simp add: thread_step_def GetBucket_partitionIndex(1) [OF D(2) D(1)] split: list.splits)
  next
    case (Lock_wait i key)
    then show ?thesis by (simp add: thread_step_def split: option.splits)
  qed (use None in simp_all)
qed

lemma progress:
  assumes I: "inv T n tot (ths, cm)" and nf: "\<not> all_finished ths"
  shows "\<exists>t < length ths. \<exists>th' cm'. thread_step T (ths ! t) cm = Inr (Some (th', cm'))"
proof -
  note D = invD [OF I]
  from nf obtain t where t: "t < length ths" and u: "\<not> finished (ths ! t)"
    by (auto simp: all_finished_def list_all_length)
  show ?thesis
  proof (cases "holding (pc (ths ! t))")
    case (Some i)
    from holder_can_step [OF I t Some] t show ?thesis by blast
  next
    case None
    show ?thesis
    proof (cases "pc (ths ! t)")
      case Idle
      with u obtain key rest where "todo (ths ! t) = key # rest"
        by (cases "todo (ths ! t)") (auto simp: finished_def)
      with Idle have "\<exists>th' cm'. thread_step T (ths ! t) cm = Inr (Some (th', cm'))"
        by (simp add: thread_step_def GetBucket_partitionIndex(1) [OF D(2) D(1)])
      with t show ?thesis by blast
    next
      case (Lock_wait i key)
      show ?thesis
      proof (cases "mutex (buckets cm ! i)")
        case False
        with Lock_wait have "\<exists>th' cm'. thread_step T (ths ! t) cm = Inr (Some (th', cm'))"
          by (simp add: thread_step_def lock_guard_ctor_free)
        with t show ?thesis by blast
      next
        case True
        have "pc_ok T n cm (pc (ths ! t))" using D(6) t by simp
        with Lock_wait have "i < unat n"
          using D(1) by (simp add: partitionIndex_def word_less_nat_alt)
        with D(8) True have "Some i \<in> set (map (\<lambda>th. holding (pc th)) ths)" by simp
        then obtain t' where t': "t' < length ths" and h: "holding (pc (ths ! t')) = Some i"
          by (auto simp: in_set_conv_nth)
        from holder_can_step [OF I t' h] t' show ?thesis by blast
      qed
    qed (use None in simp_all)
  qed
qed

lemma step_work:
  assumes "thread_step T th cm = Inr (Some (th', cm'))"
  shows "Suc (work1 th') = work1 th"
  using assms by (cases rule: thread_step_cases) (simp_all add: work1_def)

lemma work_update:
  assumes "t < length ths" and "Suc (work1 th') = work1 (ths ! t)"
  shows "work (ths[t := th']) < work ths"
  using sum_list_map_update [OF assms(1), of work1 th'] assms(2) by (simp add: work_def)

lemma run_schedule_append:
  "run_schedule T (sched @ sched') s = run_schedule T sched' (run_schedule T sched s)"
  by (induction sched arbitrary: s) simp_all

lemma completion:
  "inv T n tot s \<Longrightarrow> \<exists>sched. all_finished (fst (run_schedule T sched s))"
proof (induction "work (fst s)" arbitrary: s rule: less_induct)
  case less
  obtain ths cm where s: "s = (ths, cm)" by (cases s)
  show ?case
  proof (cases "all_finished ths")
    case True
    then have "all_finished (fst (run_schedule T [] s))" by (simp add: s)
    then show ?thesis by blast
  next
    case False
    from progress [OF less.prems [unfolded s] False]
    obtain t th' cm' where t: "t < length ths"
      and st: "thread_step T (ths ! t) cm = Inr (Some (th', cm'))" by blast
    have nx: "sched_step T t s = (ths[t := th'], cm')"
      using t st by (simp add: sched_step_def s)
    have I': "inv T n tot (ths[t := th'], cm')"
      by (rule inv_thread_step [OF less.prems [unfolded s] t st])
    have "work (ths[t := th']) < work ths"
      by (rule work_update [OF t step_work [OF st]])
    then have "work (fst (ths[t := th'], cm')) < work (fst s)" by (simp add: s)
    from less.hyps [OF this I']
    obtain sched where "all_finished (fst (run_schedule T sched (ths[t := th'], cm')))" by blast
    then have "all_finished (fst (run_schedule T (t # sched) s))" by (simp add: nx)
    then show ?thesis by blast
  qed
qed

subsection \<open>The keys of the kernel\<close>

lemma length_iota_updates: "length (iota_updates key_count) = key_count"
  by (simp add: iota_updates_def)

lemma word32_of_int_inj:
  assumes e: "(word_of_int a :: 32 word) = word_of_int b" and d: "\<bar>a - b\<bar> < 2 ^ 32"
  shows "a = b"
proof -
  from e have "a mod 2 ^ 32 = b mod 2 ^ 32"
    by (simp add: word_of_int_eq_iff take_bit_eq_mod)
  then have "(2 ^ 32 :: int) dvd a - b" by (simp add: mod_eq_dvd_iff)
  then obtain q where q: "a - b = 2 ^ 32 * q" by (auto simp: dvd_def)
  with d have "\<bar>q\<bar> < 1" by (simp add: abs_mult)
  then have "q = 0" by simp
  with q show ?thesis by simp
qed

lemma distinct_iota_updates:
  assumes "key_count \<le> 2 ^ 32"
  shows "distinct (iota_updates key_count)"
  unfolding iota_updates_def distinct_map
proof (intro conjI inj_onI)
  show "distinct [0..<key_count]" by simp
next
  fix j j'
  assume j: "j \<in> set [0..<key_count]" and j': "j' \<in> set [0..<key_count]"
    and e: "(word_of_int (- (int key_count div 2) + int j) :: 32 word)
          = word_of_int (- (int key_count div 2) + int j')"
  have "\<bar>(- (int key_count div 2) + int j) - (- (int key_count div 2) + int j')\<bar> < 2 ^ 32"
    using j j' assms by auto
  from word32_of_int_inj [OF e this] show "j = j'" by simp
qed

lemma increments_kernel_keys:
  assumes "\<forall>p \<in> set perms. mset p = mset us"
  shows "increments (map kernel_keys perms) key = 2 * length perms * count_list us key"
  using assms
proof (induction perms)
  case Nil
  then show ?case by (simp add: increments_def)
next
  case (Cons p perms)
  have "count_list p key = count_list us key"
    using Cons.prems by (metis count_mset list.set_intros(1))
  moreover have "count_list (concat (map kernel_keys perms)) key
      = 2 * length perms * count_list us key"
    using Cons by (simp add: increments_def)
  ultimately show ?case by (simp add: increments_def kernel_keys_def [of p])
qed

lemma count_list_distinct:
  "distinct xs \<Longrightarrow> count_list xs x = (if x \<in> set xs then 1 else 0)"
  by (induction xs) auto

lemma sint_small: "N < 2 ^ 31 \<Longrightarrow> sint (word_of_nat N :: 32 word) = int N"
  by (simp add: signed_of_nat signed_take_bit_int_eq_self)

lemma kernel_snapshot:
  fixes perms :: "32 word list list"
  assumes perm: "\<forall>p \<in> set perms. mset p = mset (iota_updates key_count)"
    and kc: "key_count \<le> 2 ^ 32" and nonempty: "0 < length perms"
  defines "result \<equiv> (\<lambda>key. if increments (map kernel_keys perms) key = 0 then None
                        else Some (word_of_nat (increments (map kernel_keys perms) key) :: 32 word))"
  shows "card (dom result) = key_count"
    and "\<forall>key \<in> dom result. result key = Some (word_of_nat (2 * length perms))"
proof -
  have inc: "increments (map kernel_keys perms) key
      = (if key \<in> set (iota_updates key_count) then 2 * length perms else 0)" for key
    by (simp add: increments_kernel_keys [OF perm]
          count_list_distinct [OF distinct_iota_updates [OF kc]])
  have ne: "perms \<noteq> []" using nonempty by auto
  have d: "dom result = set (iota_updates key_count)"
    using ne by (auto simp: result_def inc dom_def)
  show "card (dom result) = key_count"
    by (simp add: d distinct_card [OF distinct_iota_updates [OF kc]] length_iota_updates)
  show "\<forall>key \<in> dom result. result key = Some (word_of_nat (2 * length perms))"
    unfolding d using ne by (simp add: result_def inc)
qed

text \<open>Unfolding the steps of the threads on a concrete schedule.\<close>

lemmas thread_defs =
  run_defs thread_step_def sched_step_def increment_def int_int_def spawn_def

lemma replicate_2: "replicate 2 x = [x, x]"
  by (simp add: numeral_2_eq_2)

subsection \<open>The map while an \<^verbatim>\<open>Access\<close> is alive\<close>

lemma operator_subscript_partitioned:
  assumes c: "constructed T n cm" and acc: "operator_subscript T key cm = Inr (a, cm1)"
  shows "partitioned T cm1" and "length (buckets cm1) = unat n"
proof -
  have len: "length (buckets cm) = unat n" and q: "quiescent cm" and p: "partitioned T cm"
    and pos: "0 < n"
    using c by (simp_all add: constructed_def)
  let ?i = "partitionIndex (Key_is_signed T) key (unat n)"
  let ?l = "update_bucket ?i (\<lambda>b. b\<lparr>mutex := True\<rparr>) cm"
  let ?f = "\<lambda>b. b\<lparr>map' := map_subscript (Value_init T) key (map' b)\<rparr>"
  have gb: "GetBucket T key cm = Inr ?i" and lt: "?i < length (buckets cm)"
    using GetBucket_partitionIndex [OF len pos] len by simp_all
  have free: "\<not> mutex (buckets cm ! ?i)" using q lt by (rule quiescent_nth)
  have cm1: "cm1 = update_bucket ?i ?f ?l"
    using acc by (simp add: operator_subscript_def gb Access_ctor_def lock_guard_ctor_free [OF free])
  have pl: "partitioned T ?l" by (rule partitioned_same_maps [OF p]) simp
  show "partitioned T cm1"
    unfolding cm1
    by (rule partitioned_update_map [OF pl, of ?i key])
       (auto simp: len lt map_subscript_def split: option.splits)
  show "length (buckets cm1) = unat n" by (simp add: cm1 len)
qed

section \<open>Properties of the map\<close>

text \<open>
  In the theorems below \<open>construct_and_run T n ops\<close> is a map constructed with \<open>n\<close>
  buckets on which a caller has run the operations \<open>ops\<close>, any sequence of accesses with
  writes, erasures and snapshots: the states a map reaches between the operations of its
  callers. Each theorem also states that the sequence returns a map.
\<close>

text \<open>
  \<^bold>\<open>C1\<close>. For every key and every map constructed with \<open>n > 0\<close> buckets, in every state
  the map reaches, \<^verbatim>\<open>GetBucket\<close> selects the bucket \<open>unsignedWiden key mod n\<close>, where
  \<open>unsignedWiden\<close> is the key as an unsigned 64-bit number (a negative key wraps); the
  index is below \<open>n\<close>.
\<close>

theorem GetBucket_is_unsignedWiden_mod:
  assumes "0 < n"
  shows "\<exists>cm. construct_and_run T n ops = Inr cm
           \<and> GetBucket T key cm = Inr (unsignedWiden (Key_is_signed T) key mod unat n)
           \<and> unsignedWiden (Key_is_signed T) key mod unat n < unat n"
proof -
  from construct_and_run_constructed [OF assms, of T ops]
  obtain cm where r: "construct_and_run T n ops = Inr cm" and c: "constructed T n cm"
    by blast
  have len: "length (buckets cm) = unat n" using c by (simp add: constructed_def)
  show ?thesis
    using r GetBucket_partitionIndex [OF len assms, of T key]
    by (simp add: partitionIndex_def)
qed

theorem GetBucket_is_unsignedWiden_mod_witness:
  "(0 :: 64 word) < 3 \<and>
   (\<exists>cm. construct_and_run \<lparr>Key_is_signed = True, Value_init = 0 :: 32 word\<rparr> 3
            [Access_op (- 1 :: 32 word) (\<lambda>v. v + 1)] = Inr cm
        \<and> GetBucket \<lparr>Key_is_signed = True, Value_init = 0 :: 32 word\<rparr> (- 1 :: 32 word) cm = Inr 0)
   \<and> unsignedWiden True (- 1 :: 32 word) = 18446744073709551615"
  using GetBucket_is_unsignedWiden_mod
    [of 3 "\<lparr>Key_is_signed = True, Value_init = 0 :: 32 word\<rparr>"
        "[Access_op (- 1 :: 32 word) (\<lambda>v. v + 1)]" "- 1"]
  by (simp add: unsignedWiden_def)

text \<open>
  \<^bold>\<open>C2\<close>, the counterexample. Constructing with a bucket count of zero does not fail:
  the constructor has no check, and with zero it returns a map with no buckets.
\<close>

theorem ConcurrentMap_ctor_zero_succeeds:
  "(ConcurrentMap_ctor 0 :: fault + (32 word, 32 word) ConcurrentMap) = Inr \<lparr>buckets = []\<rparr>"
  by (simp add: ConcurrentMap_ctor_def)

text \<open>
  \<^bold>\<open>C2\<close>, as amended. Constructing with a bucket count of zero does not fail and does not
  fall back on some positive count: it returns a map whose vector of buckets is empty.
  On that map \<^verbatim>\<open>BuildOrdinaryMap\<close> returns the empty map, and partition selection, and
  with it every access and every erase, is a remainder by zero.
\<close>

theorem ConcurrentMap_ctor_zero_empty_table:
  "\<exists>cm. ConcurrentMap_ctor 0 = Inr cm \<and> buckets cm = []
        \<and> BuildOrdinaryMap cm = Inr (Map.empty, cm)
        \<and> GetBucket T key cm = Inl ModuloByZero
        \<and> access_update T key f cm = Inl ModuloByZero
        \<and> erase T key cm = Inl ModuloByZero"
  by (simp add: ConcurrentMap_ctor_def BuildOrdinaryMap_def GetBucket_def access_update_def
        operator_subscript_def erase_def)

theorem ConcurrentMap_ctor_zero_empty_table_witness:
  "\<exists>cm. (ConcurrentMap_ctor 0 :: fault + (32 word, 32 word) ConcurrentMap) = Inr cm
        \<and> buckets cm = []
        \<and> BuildOrdinaryMap cm = Inr (Map.empty, cm)
        \<and> GetBucket \<lparr>Key_is_signed = True, Value_init = 0\<rparr> 5 cm = Inl ModuloByZero
        \<and> access_update \<lparr>Key_is_signed = True, Value_init = 0\<rparr> 5 (\<lambda>v. v + 1) cm = Inl ModuloByZero
        \<and> erase \<lparr>Key_is_signed = True, Value_init = 0\<rparr> 5 cm = Inl ModuloByZero"
  using ConcurrentMap_ctor_zero_empty_table
    [of "\<lparr>Key_is_signed = True, Value_init = 0 :: 32 word\<rparr>" "5 :: 32 word" "\<lambda>v. v + 1"]
  by simp

text \<open>
  \<^bold>\<open>C3\<close>. \<^verbatim>\<open>operator[]\<close> on a reachable map returns a handle that holds the mutex of the
  key's bucket and refers to the key's slot there. When no bucket has the key, exactly one
  entry is added, the key with the value-initialised value in the bucket the handle
  guards, and the reference reads that value. When the key is present, no bucket's map
  changes and the reference reads the value the key is bound to.
\<close>

theorem access_upsert_default:
  assumes "0 < n"
  shows "\<exists>cm a cm1. construct_and_run T n ops = Inr cm
     \<and> operator_subscript T key cm = Inr (a, cm1)
     \<and> ref_to_value a = (guard a, key) \<and> mutex (buckets cm1 ! guard a)
     \<and> (if contains cm key
        then map map' (buckets cm1) = map map' (buckets cm)
           \<and> (\<forall>b \<in> set (buckets cm). \<forall>v. map' b key = Some v
                 \<longrightarrow> ref_load (ref_to_value a) cm1 = Inr v)
        else map map' (buckets cm1)
             = (map map' (buckets cm))[guard a := (map' (buckets cm ! guard a))(key \<mapsto> Value_init T)]
           \<and> ref_load (ref_to_value a) cm1 = Inr (Value_init T))"
proof -
  from construct_and_run_constructed [OF assms, of T ops]
  obtain cm where r: "construct_and_run T n ops = Inr cm" and c: "constructed T n cm"
    by blast
  have len: "length (buckets cm) = unat n" and q: "quiescent cm" and p: "partitioned T cm"
    using c by (simp_all add: constructed_def)
  let ?i = "partitionIndex (Key_is_signed T) key (unat n)"
  let ?a = "\<lparr>guard = ?i, ref_to_value = (?i, key)\<rparr>"
  let ?cm1 = "update_bucket ?i (\<lambda>b. b\<lparr>map' := map_subscript (Value_init T) key (map' b)\<rparr>)
                (update_bucket ?i (\<lambda>b. b\<lparr>mutex := True\<rparr>) cm)"
  have gb: "GetBucket T key cm = Inr ?i" and lt: "?i < length (buckets cm)"
    using GetBucket_partitionIndex [OF len assms] len by simp_all
  have free: "\<not> mutex (buckets cm ! ?i)" using q lt by (rule quiescent_nth)
  have acc: "operator_subscript T key cm = Inr (?a, ?cm1)"
    by (simp add: operator_subscript_def gb Access_ctor_def lock_guard_ctor_free [OF free])
  have held: "mutex (buckets ?cm1 ! ?i)" using lt by simp
  have maps: "map map' (buckets ?cm1)
      = (map map' (buckets cm))[?i := map_subscript (Value_init T) key (map' (buckets cm ! ?i))]"
    using lt by (simp add: map_update)
  have ld: "ref_load (?i, key) ?cm1
      = Inr (case map' (buckets cm ! ?i) key of None \<Rightarrow> Value_init T | Some v \<Rightarrow> v)"
    using lt by (simp add: ref_load_def map_subscript_def split: option.splits)
  have cases: "if contains cm key
        then map map' (buckets ?cm1) = map map' (buckets cm)
           \<and> (\<forall>b \<in> set (buckets cm). \<forall>v. map' b key = Some v
                 \<longrightarrow> ref_load (?i, key) ?cm1 = Inr v)
        else map map' (buckets ?cm1)
             = (map map' (buckets cm))[?i := (map' (buckets cm ! ?i))(key \<mapsto> Value_init T)]
           \<and> ref_load (?i, key) ?cm1 = Inr (Value_init T)"
  proof (cases "contains cm key")
    case True
    then obtain b0 v0 where b0: "b0 \<in> set (buckets cm)" and k0: "map' b0 key = Some v0"
      by (auto simp: contains_def)
    from partitioned_key_bucket [OF p b0 k0] k0 len
    have here: "map' (buckets cm ! ?i) key = Some v0" by simp
    then have "map_subscript (Value_init T) key (map' (buckets cm ! ?i)) = map' (buckets cm ! ?i)"
      by (simp add: map_subscript_def)
    then have same: "map map' (buckets ?cm1) = map map' (buckets cm)"
      using maps lt by (simp add: list_update_same_conv)
    have "\<forall>b \<in> set (buckets cm). \<forall>v. map' b key = Some v
                 \<longrightarrow> ref_load (?i, key) ?cm1 = Inr v"
    proof (intro ballI allI impI)
      fix b v assume b: "b \<in> set (buckets cm)" and k: "map' b key = Some v"
      from partitioned_key_bucket [OF p b k] k len
      have "map' (buckets cm ! ?i) key = Some v" by simp
      then show "ref_load (?i, key) ?cm1 = Inr v" using ld by simp
    qed
    with True same show ?thesis by simp
  next
    case False
    then have none: "map' (buckets cm ! ?i) key = None"
      using lt by (auto simp: contains_def)
    then have "map_subscript (Value_init T) key (map' (buckets cm ! ?i))
        = (map' (buckets cm ! ?i))(key \<mapsto> Value_init T)"
      by (simp add: map_subscript_def)
    with False maps ld none show ?thesis by simp
  qed
  show ?thesis
    apply (rule exI [of _ cm], rule exI [of _ ?a], rule exI [of _ ?cm1])
    apply (simp only: Access.select_convs)
    apply (intro conjI r acc refl held cases)
    done
qed

theorem access_upsert_default_witness:
  "(0 :: 64 word) < 3 \<and>
   (\<exists>cm a cm1.
      construct_and_run \<lparr>Key_is_signed = True, Value_init = 0 :: 32 word\<rparr> 3
        [Access_op (5 :: 32 word) (\<lambda>v :: 32 word. v + 1)] = Inr cm
      \<and> operator_subscript \<lparr>Key_is_signed = True, Value_init = 0 :: 32 word\<rparr> (- 1) cm = Inr (a, cm1)
      \<and> \<not> contains cm (- 1)
      \<and> ref_load (ref_to_value a) cm1 = Inr 0
      \<and> contains cm1 (- 1))"
proof -
  let ?T = "\<lparr>Key_is_signed = True, Value_init = 0 :: 32 word\<rparr>"
  let ?ops = "[Access_op (5 :: 32 word) (\<lambda>v :: 32 word. v + 1)]"
  have pos: "(0 :: 64 word) < 3" by simp
  from access_upsert_default [OF pos, of ?T ?ops "- 1"]
  obtain cm a cm1 where r: "construct_and_run ?T 3 ?ops = Inr cm"
    and acc: "operator_subscript ?T (- 1) cm = Inr (a, cm1)"
    and br: "if contains cm (- 1)
        then map map' (buckets cm1) = map map' (buckets cm)
           \<and> (\<forall>b \<in> set (buckets cm). \<forall>v. map' b (- 1) = Some v
                 \<longrightarrow> ref_load (ref_to_value a) cm1 = Inr v)
        else map map' (buckets cm1)
             = (map map' (buckets cm))[guard a := (map' (buckets cm ! guard a))(- 1 \<mapsto> Value_init ?T)]
           \<and> ref_load (ref_to_value a) cm1 = Inr (Value_init ?T)"
    by (elim exE conjE) (rule that)
  have cm: "cm = \<lparr>buckets = [\<lparr>mutex = False, map' = Map.empty\<rparr>,
        \<lparr>mutex = False, map' = Map.empty\<rparr>, \<lparr>mutex = False, map' = [5 \<mapsto> 1]\<rparr>]\<rparr>"
    using r by (simp add: run_defs replicate_3)
  have absent: "\<not> contains cm (- 1)" by (simp add: cm contains_def)
  have ld: "ref_load (ref_to_value a) cm1 = Inr 0" using br absent by simp
  have "cm1 = \<lparr>buckets = [\<lparr>mutex = True, map' = [- 1 \<mapsto> 0]\<rparr>,
        \<lparr>mutex = False, map' = Map.empty\<rparr>, \<lparr>mutex = False, map' = [5 \<mapsto> 1]\<rparr>]\<rparr>"
    using acc by (simp add: cm run_defs)
  then have "contains cm1 (- 1)" by (simp add: contains_def)
  with pos r acc absent ld show ?thesis
    by (intro conjI exI [of _ cm] exI [of _ a] exI [of _ cm1])
qed

text \<open>
  \<^bold>\<open>C4\<close>. After any sequence of operations, \<^verbatim>\<open>BuildOrdinaryMap\<close> returns the map that
  one ordinary map would hold after the same sequence: its keys are exactly those
  inserted by an access and not erased afterwards, each bound to the value last written
  (the value-initialised value when the access wrote nothing new).
\<close>

theorem snapshot_completeness:
  assumes "0 < n"
  shows "\<exists>cm. construct_and_run T n ops = Inr cm
     \<and> BuildOrdinaryMap cm = Inr (ordinary_map (Value_init T) ops Map.empty, cm)
     \<and> dom (ordinary_map (Value_init T) ops Map.empty) = {key. inserted_not_erased key ops}"
proof -
  obtain cm0 :: "('a word, 'b) ConcurrentMap" where c0: "ConcurrentMap_ctor n = Inr cm0"
    by (simp add: ConcurrentMap_ctor_def)
  have k0: "constructed T n cm0" by (rule constructed_ctor [OF assms c0])
  from run_constructed [OF k0, of ops]
  obtain cm where r: "run T ops cm0 = Inr cm" and c: "constructed T n cm" by blast
  have "snapshot_of T cm = ordinary_map (Value_init T) ops Map.empty"
    using snapshot_of_run [OF k0 r] snapshot_of_ctor [OF c0 assms, of T] by simp
  then have "BuildOrdinaryMap cm = Inr (ordinary_map (Value_init T) ops Map.empty, cm)"
    using BuildOrdinaryMap_constructed [OF c] by simp
  moreover have "construct_and_run T n ops = Inr cm"
    by (simp add: construct_and_run_def c0 r)
  ultimately show ?thesis using dom_ordinary_map [of "Value_init T" ops] by blast
qed

theorem snapshot_completeness_witness:
  "(0 :: 64 word) < 3 \<and>
   (\<exists>cm result.
      construct_and_run \<lparr>Key_is_signed = True, Value_init = 0 :: 32 word\<rparr> 3
        [Access_op (5 :: 32 word) (\<lambda>v :: 32 word. v + 1), Access_op (- 1) (\<lambda>v. v + 1),
         Access_op 5 (\<lambda>v. v + 1), Erase_op (- 1), Access_op 2 id] = Inr cm
      \<and> BuildOrdinaryMap cm = Inr (result, cm)
      \<and> result 5 = Some 2 \<and> result (- 1) = None \<and> result 2 = Some 0 \<and> result 7 = None
      \<and> dom result = {key. inserted_not_erased key
           [Access_op (5 :: 32 word) (\<lambda>v :: 32 word. v + 1), Access_op (- 1) (\<lambda>v. v + 1),
            Access_op 5 (\<lambda>v. v + 1), Erase_op (- 1), Access_op 2 id]})"
proof -
  let ?T = "\<lparr>Key_is_signed = True, Value_init = 0 :: 32 word\<rparr>"
  let ?ops = "[Access_op (5 :: 32 word) (\<lambda>v :: 32 word. v + 1), Access_op (- 1) (\<lambda>v. v + 1),
         Access_op 5 (\<lambda>v. v + 1), Erase_op (- 1), Access_op 2 id]"
  let ?m = "ordinary_map (Value_init ?T) ?ops Map.empty"
  have pos: "(0 :: 64 word) < 3" by simp
  from snapshot_completeness [OF pos, of ?T ?ops]
  obtain cm where r: "construct_and_run ?T 3 ?ops = Inr cm"
    and s: "BuildOrdinaryMap cm = Inr (?m, cm)"
    and d: "dom ?m = {key. inserted_not_erased key ?ops}"
    by (elim exE conjE) (rule that)
  have "?m 5 = Some 2" "?m (- 1) = None" "?m 2 = Some 0" "?m 7 = None" by simp_all
  with pos r s d show ?thesis
    by (intro conjI exI [of _ cm] exI [of _ ?m])
qed

text \<open>
  \<^bold>\<open>C5\<close>. \<^verbatim>\<open>erase\<close> on a reachable map returns normally. When no bucket has the key,
  the map after it is the map before it. In every case each bucket keeps its mutex state
  and its map is the one before with the key removed, so the snapshot afterwards is the
  snapshot before without the key.
\<close>

theorem erase_absent_is_noop:
  assumes "0 < n"
  shows "\<exists>cm cm' snap. construct_and_run T n ops = Inr cm \<and> erase T key cm = Inr cm'
     \<and> BuildOrdinaryMap cm = Inr (snap, cm)
     \<and> BuildOrdinaryMap cm' = Inr (snap(key := None), cm')
     \<and> (\<not> contains cm key \<longrightarrow> cm' = cm)
     \<and> length (buckets cm') = length (buckets cm)
     \<and> (\<forall>i < length (buckets cm).
           map' (buckets cm' ! i) = (map' (buckets cm ! i))(key := None)
           \<and> mutex (buckets cm' ! i) = mutex (buckets cm ! i))"
proof -
  from construct_and_run_constructed [OF assms, of T ops]
  obtain cm where r: "construct_and_run T n ops = Inr cm" and c: "constructed T n cm"
    by blast
  have len: "length (buckets cm) = unat n" and q: "quiescent cm" and p: "partitioned T cm"
    using c by (simp_all add: constructed_def)
  let ?i = "partitionIndex (Key_is_signed T) key (unat n)"
  let ?f = "\<lambda>b. b\<lparr>map' := (map' b)(key := None)\<rparr>"
  let ?cm' = "update_bucket ?i ?f cm"
  have e: "erase T key cm = Inr ?cm'" by (rule erase_quiescent [OF len assms q])
  have lt: "?i < length (buckets cm)"
    using GetBucket_partitionIndex(2) [OF len assms] len by simp
  have ex: "exec T (Erase_op key) cm = Inr ?cm'" using e by simp
  from exec_constructed [OF c, of "Erase_op key"] ex
  have c': "constructed T n ?cm'" by simp
  have s: "BuildOrdinaryMap cm = Inr (snapshot_of T cm, cm)"
    by (rule BuildOrdinaryMap_constructed [OF c])
  have s': "BuildOrdinaryMap ?cm' = Inr ((snapshot_of T cm)(key := None), ?cm')"
    using BuildOrdinaryMap_constructed [OF c'] snapshot_of_exec [OF c ex] by simp
  have noop: "\<not> contains cm key \<longrightarrow> ?cm' = cm"
  proof
    assume "\<not> contains cm key"
    then have "map' (buckets cm ! ?i) key = None"
      using lt by (auto simp: contains_def)
    then have "(map' (buckets cm ! ?i))(key := None) = map' (buckets cm ! ?i)"
      by (simp add: fun_upd_idem_iff)
    then have "?f (buckets cm ! ?i) = buckets cm ! ?i" by simp
    then show "?cm' = cm" by (rule update_bucket_same)
  qed
  have each: "\<forall>j < length (buckets cm).
           map' (buckets ?cm' ! j) = (map' (buckets cm ! j))(key := None)
           \<and> mutex (buckets ?cm' ! j) = mutex (buckets cm ! j)"
  proof (intro allI impI)
    fix j assume j: "j < length (buckets cm)"
    show "map' (buckets ?cm' ! j) = (map' (buckets cm ! j))(key := None)
           \<and> mutex (buckets ?cm' ! j) = mutex (buckets cm ! j)"
    proof (cases "j = ?i")
      case True
      then show ?thesis using lt by simp
    next
      case False
      have "key \<notin> dom (map' (buckets cm ! j))"
        using p j False len by (fastforce simp: partitioned_def)
      then have "(map' (buckets cm ! j))(key := None) = map' (buckets cm ! j)"
        by (simp add: fun_upd_idem_iff domIff)
      then show ?thesis using False j by simp
    qed
  qed
  show ?thesis
    using r e s s' noop each by (intro exI [of _ cm] exI [of _ ?cm'] exI [of _ "snapshot_of T cm"]) simp
qed

theorem erase_absent_is_noop_witness:
  "(0 :: 64 word) < 3 \<and>
   (\<exists>cm.
      construct_and_run \<lparr>Key_is_signed = True, Value_init = 0 :: 32 word\<rparr> 3
        [Access_op (5 :: 32 word) (\<lambda>v :: 32 word. v + 1)] = Inr cm
      \<and> \<not> contains cm 7
      \<and> erase \<lparr>Key_is_signed = True, Value_init = 0 :: 32 word\<rparr> 7 cm = Inr cm)"
proof -
  let ?T = "\<lparr>Key_is_signed = True, Value_init = 0 :: 32 word\<rparr>"
  let ?ops = "[Access_op (5 :: 32 word) (\<lambda>v :: 32 word. v + 1)]"
  have pos: "(0 :: 64 word) < 3" by simp
  from erase_absent_is_noop [OF pos, of ?T ?ops 7]
  obtain cm cm' where r: "construct_and_run ?T 3 ?ops = Inr cm"
    and e: "erase ?T 7 cm = Inr cm'"
    and noop: "\<not> contains cm 7 \<longrightarrow> cm' = cm"
    by (elim exE conjE) (rule that)
  have cm: "cm = \<lparr>buckets = [\<lparr>mutex = False, map' = Map.empty\<rparr>,
        \<lparr>mutex = False, map' = Map.empty\<rparr>, \<lparr>mutex = False, map' = [5 \<mapsto> 1]\<rparr>]\<rparr>"
    using r by (simp add: run_defs replicate_3)
  have absent: "\<not> contains cm 7" by (simp add: cm contains_def)
  with noop e have "erase ?T 7 cm = Inr cm" by simp
  with pos r absent show ?thesis
    by (intro conjI exI [of _ cm])
qed

text \<open>
  \<^bold>\<open>C6\<close>. After any sequence of accesses, erasures and snapshots, bucket \<open>i\<close> holds only
  keys \<open>k\<close> with \<open>unsignedWiden k mod n = i\<close>; hence the key sets of two different buckets
  are disjoint. The same holds of the map while the \<^verbatim>\<open>Access\<close> that \<^verbatim>\<open>operator[]\<close>
  returned is alive.
\<close>

theorem partition_disjointness:
  assumes "0 < n"
  shows "\<exists>cm. construct_and_run T n ops = Inr cm
     \<and> (\<forall>i < length (buckets cm). \<forall>key \<in> dom (map' (buckets cm ! i)).
           unsignedWiden (Key_is_signed T) key mod unat n = i)
     \<and> (\<forall>i < length (buckets cm). \<forall>j < length (buckets cm).
           i \<noteq> j \<longrightarrow> dom (map' (buckets cm ! i)) \<inter> dom (map' (buckets cm ! j)) = {})
     \<and> (\<forall>key' a cm1. operator_subscript T key' cm = Inr (a, cm1) \<longrightarrow>
           (\<forall>i < length (buckets cm1). \<forall>key \<in> dom (map' (buckets cm1 ! i)).
              unsignedWiden (Key_is_signed T) key mod unat n = i))"
proof -
  from construct_and_run_constructed [OF assms, of T ops]
  obtain cm where r: "construct_and_run T n ops = Inr cm" and c: "constructed T n cm"
    by blast
  have len: "length (buckets cm) = unat n" and p: "partitioned T cm"
    using c by (simp_all add: constructed_def)
  have only: "\<forall>i < length (buckets cm). \<forall>key \<in> dom (map' (buckets cm ! i)).
           unsignedWiden (Key_is_signed T) key mod unat n = i"
    using p len by (simp add: partitioned_def partitionIndex_def)
  then have disj: "\<forall>i < length (buckets cm). \<forall>j < length (buckets cm).
           i \<noteq> j \<longrightarrow> dom (map' (buckets cm ! i)) \<inter> dom (map' (buckets cm ! j)) = {}"
    by (metis disjoint_iff)
  have alive: "\<forall>key' a cm1. operator_subscript T key' cm = Inr (a, cm1) \<longrightarrow>
           (\<forall>i < length (buckets cm1). \<forall>key \<in> dom (map' (buckets cm1 ! i)).
              unsignedWiden (Key_is_signed T) key mod unat n = i)"
  proof (rule allI, rule allI, rule allI, rule impI)
    fix key' a cm1
    assume acc: "operator_subscript T key' cm = Inr (a, cm1)"
    from operator_subscript_partitioned [OF c acc]
    show "\<forall>i < length (buckets cm1). \<forall>key \<in> dom (map' (buckets cm1 ! i)).
              unsignedWiden (Key_is_signed T) key mod unat n = i"
      by (simp add: partitioned_def partitionIndex_def)
  qed
  from r only disj alive show ?thesis by (intro exI [of _ cm] conjI)
qed

theorem partition_disjointness_witness:
  "(0 :: 64 word) < 3 \<and>
   (\<exists>cm.
      construct_and_run \<lparr>Key_is_signed = True, Value_init = 0 :: 32 word\<rparr> 3
        [Access_op (5 :: 32 word) (\<lambda>v :: 32 word. v + 1), Access_op (- 1) (\<lambda>v. v + 1)] = Inr cm
      \<and> length (buckets cm) = 3
      \<and> - 1 \<in> dom (map' (buckets cm ! 0)) \<and> unsignedWiden True (- 1 :: 32 word) mod 3 = 0
      \<and> 5 \<in> dom (map' (buckets cm ! 2)) \<and> unsignedWiden True (5 :: 32 word) mod 3 = 2
      \<and> dom (map' (buckets cm ! 0)) \<inter> dom (map' (buckets cm ! 2)) = {})"
proof -
  let ?T = "\<lparr>Key_is_signed = True, Value_init = 0 :: 32 word\<rparr>"
  let ?ops = "[Access_op (5 :: 32 word) (\<lambda>v :: 32 word. v + 1), Access_op (- 1) (\<lambda>v. v + 1)]"
  have pos: "(0 :: 64 word) < 3" by simp
  from partition_disjointness [OF pos, of ?T ?ops]
  obtain cm where r: "construct_and_run ?T 3 ?ops = Inr cm"
    and only: "\<forall>i < length (buckets cm). \<forall>key \<in> dom (map' (buckets cm ! i)).
           unsignedWiden (Key_is_signed ?T) key mod unat (3 :: 64 word) = i"
    and disj: "\<forall>i < length (buckets cm). \<forall>j < length (buckets cm).
           i \<noteq> j \<longrightarrow> dom (map' (buckets cm ! i)) \<inter> dom (map' (buckets cm ! j)) = {}"
    by (elim exE conjE) (rule that)
  have cm: "cm = \<lparr>buckets = [\<lparr>mutex = False, map' = [- 1 \<mapsto> 1]\<rparr>,
        \<lparr>mutex = False, map' = Map.empty\<rparr>, \<lparr>mutex = False, map' = [5 \<mapsto> 1]\<rparr>]\<rparr>"
    using r by (simp add: run_defs replicate_3)
  have len: "length (buckets cm) = 3" by (simp add: cm)
  have in0: "- 1 \<in> dom (map' (buckets cm ! 0))" and in2: "5 \<in> dom (map' (buckets cm ! 2))"
    by (simp_all add: cm)
  have w0: "unsignedWiden True (- 1 :: 32 word) mod 3 = 0"
    using only [rule_format, of 0 "- 1"] in0 len by simp
  have w2: "unsignedWiden True (5 :: 32 word) mod 3 = 2"
    using only [rule_format, of 2 5] in2 len by simp
  have "dom (map' (buckets cm ! 0)) \<inter> dom (map' (buckets cm ! 2)) = {}"
    using disj len by simp
  with pos r len in0 in2 w0 w2 show ?thesis
    by (intro conjI exI [of _ cm])
qed

text \<open>
  \<^bold>\<open>C7\<close>. In every state, when \<^verbatim>\<open>BuildOrdinaryMap\<close> returns, the map is what it was
  before the call: every bucket has the same entries and the same mutex state. And it
  does return when no mutex is held.
\<close>

theorem BuildOrdinaryMap_read_only:
  "(\<forall>result cm'. BuildOrdinaryMap cm = Inr (result, cm') \<longrightarrow> cm' = cm)
   \<and> ((\<forall>b \<in> set (buckets cm). \<not> mutex b) \<longrightarrow> (\<exists>result. BuildOrdinaryMap cm = Inr (result, cm)))"
proof (intro conjI allI impI)
  fix result cm'
  assume "BuildOrdinaryMap cm = Inr (result, cm')"
  then show "cm' = cm"
    unfolding BuildOrdinaryMap_def by (rule BuildOrdinaryMap_loop_state)
next
  assume "\<forall>b \<in> set (buckets cm). \<not> mutex b"
  then have q: "quiescent cm" by (simp add: quiescent_def)
  show "\<exists>result. BuildOrdinaryMap cm = Inr (result, cm)"
    using BuildOrdinaryMap_loop_quiescent [OF q, of "[0..<length (buckets cm)]" Map.empty]
    by (simp add: BuildOrdinaryMap_def)
qed

theorem BuildOrdinaryMap_read_only_witness:
  "\<exists>result. BuildOrdinaryMap
      \<lparr>buckets = [\<lparr>mutex = False, map' = [3 :: 32 word \<mapsto> 7 :: 32 word]\<rparr>,
                  \<lparr>mutex = False, map' = [4 \<mapsto> 1]\<rparr>]\<rparr>
    = Inr (result,
      \<lparr>buckets = [\<lparr>mutex = False, map' = [3 :: 32 word \<mapsto> 7 :: 32 word]\<rparr>,
                  \<lparr>mutex = False, map' = [4 \<mapsto> 1]\<rparr>]\<rparr>)"
  using BuildOrdinaryMap_read_only
    [of "\<lparr>buckets = [\<lparr>mutex = False, map' = [3 :: 32 word \<mapsto> 7 :: 32 word]\<rparr>,
                  \<lparr>mutex = False, map' = [4 \<mapsto> 1]\<rparr>]\<rparr>"]
  by simp

text \<open>
  \<^bold>\<open>C8\<close>. Threads increment keys of a map constructed with \<open>n > 0\<close> buckets, each thread
  the keys of its list in order, in any interleaving of their steps; no key is asked for
  \<open>2 ^ 31\<close> increments or more. Then, after any schedule: the threads can still all
  finish; no thread is at a fault (no overflow, no reference to a missing slot); and
  once all have finished, \<^verbatim>\<open>BuildOrdinaryMap\<close> returns exactly the keys that were
  incremented, each bound to the number of increments asked for it, as an \<^verbatim>\<open>int\<close>: no
  update is lost. In particular, with three threads that each run the kernel on a
  permutation of the 50000 keys, the snapshot has 50000 entries, every value 6.
\<close>

theorem RunConcurrentUpdates_no_lost_update:
  fixes keyss :: "32 word list list"
  assumes pos: "0 < n" and ctor: "ConcurrentMap_ctor n = Inr cm0"
    and small: "\<forall>key. increments keyss key < 2 ^ 31"
    and fin: "run_schedule int_int sched (spawn keyss, cm0) = (ths, cm)"
  shows "(\<exists>sched'. all_finished (fst (run_schedule int_int (sched @ sched') (spawn keyss, cm0))))
    \<and> (\<forall>t < length ths. \<not> isl (thread_step int_int (ths ! t) cm))
    \<and> (all_finished ths \<longrightarrow>
         BuildOrdinaryMap cm
           = Inr (\<lambda>key. if increments keyss key = 0 then None
                        else Some (word_of_nat (increments keyss key)), cm)
         \<and> (\<forall>key. sint (word_of_nat (increments keyss key) :: 32 word)
                    = int (increments keyss key)))
    \<and> (all_finished ths
         \<and> (\<exists>perms. length perms = 3
                \<and> (\<forall>p \<in> set perms. mset p = mset (iota_updates 50000))
                \<and> keyss = map kernel_keys perms)
         \<longrightarrow> (\<exists>result. BuildOrdinaryMap cm = Inr (result, cm)
                \<and> card (dom result) = 50000
                \<and> (\<forall>key \<in> dom result. result key = Some 6)))"
proof -
  have v0: "Value_init int_int = 0" by (simp add: int_int_def)
  have I0: "inv int_int n (increments keyss) (spawn keyss, cm0)"
    by (rule inv_spawn [OF pos v0 small ctor])
  have I: "inv int_int n (increments keyss) (ths, cm)"
    using inv_run_schedule [OF I0, of sched] fin by simp
  from completion [OF I] obtain sched' where
    "all_finished (fst (run_schedule int_int sched' (ths, cm)))" by blast
  then have A: "\<exists>sched'. all_finished (fst (run_schedule int_int (sched @ sched') (spawn keyss, cm0)))"
    by (auto simp: run_schedule_append fin)
  have B: "\<forall>t < length ths. \<not> isl (thread_step int_int (ths ! t) cm)"
    using no_fault [OF I] by blast
  have C: "all_finished ths \<longrightarrow>
         BuildOrdinaryMap cm
           = Inr (\<lambda>key. if increments keyss key = 0 then None
                        else Some (word_of_nat (increments keyss key)), cm)
         \<and> (\<forall>key. sint (word_of_nat (increments keyss key) :: 32 word)
                    = int (increments keyss key))"
    using inv_finished_BuildOrdinaryMap [OF I] small sint_small by blast
  have D: "all_finished ths
         \<and> (\<exists>perms. length perms = 3
                \<and> (\<forall>p \<in> set perms. mset p = mset (iota_updates 50000))
                \<and> keyss = map kernel_keys perms)
         \<longrightarrow> (\<exists>result. BuildOrdinaryMap cm = Inr (result, cm)
                \<and> card (dom result) = 50000
                \<and> (\<forall>key \<in> dom result. result key = Some 6))"
  proof (intro impI, elim conjE exE)
    fix perms :: "32 word list list"
    assume f: "all_finished ths" and l: "length perms = 3"
      and p: "\<forall>p \<in> set perms. mset p = mset (iota_updates 50000)"
      and k: "keyss = map kernel_keys perms"
    let ?result = "\<lambda>key. if increments (map kernel_keys perms) key = 0 then None
         else Some (word_of_nat (increments (map kernel_keys perms) key) :: 32 word)"
    have kc: "(50000 :: nat) \<le> 2 ^ 32" by simp
    have ne: "0 < length perms" using l by simp
    have "BuildOrdinaryMap cm = Inr (?result, cm)"
      using inv_finished_BuildOrdinaryMap [OF I f] unfolding k .
    moreover have "card (dom ?result) = 50000"
      by (rule kernel_snapshot(1) [OF p kc ne])
    moreover have "\<forall>key \<in> dom ?result. ?result key = Some 6"
      using kernel_snapshot(2) [OF p kc ne] by (simp add: l)
    ultimately show "\<exists>result. BuildOrdinaryMap cm = Inr (result, cm)
                \<and> card (dom result) = 50000
                \<and> (\<forall>key \<in> dom result. result key = Some 6)"
      by (intro exI [of _ ?result] conjI)
  qed
  from A B C D show ?thesis by (intro conjI)
qed

theorem RunConcurrentUpdates_no_lost_update_witness:
  "(0 :: 64 word) < 2
   \<and> ConcurrentMap_ctor 2
       = Inr \<lparr>buckets = [\<lparr>mutex = False, map' = Map.empty\<rparr>,
                         \<lparr>mutex = False, map' = (Map.empty :: 32 word \<rightharpoonup> 32 word)\<rparr>]\<rparr>
   \<and> run_schedule int_int [0, 1, 0, 1, 0, 0, 0, 0, 1, 1, 1, 1, 1]
        (spawn [[5 :: 32 word], [5]],
         \<lparr>buckets = [\<lparr>mutex = False, map' = Map.empty\<rparr>, \<lparr>mutex = False, map' = Map.empty\<rparr>]\<rparr>)
       = ([\<lparr>pc = Idle, todo = []\<rparr>, \<lparr>pc = Idle, todo = []\<rparr>],
          \<lparr>buckets = [\<lparr>mutex = False, map' = Map.empty\<rparr>,
                      \<lparr>mutex = False, map' = [5 \<mapsto> 2]\<rparr>]\<rparr>)
   \<and> all_finished [\<lparr>pc = Idle, todo = []\<rparr>, \<lparr>pc = Idle, todo = [] :: 32 word list\<rparr>]
   \<and> (\<exists>result. BuildOrdinaryMap
          \<lparr>buckets = [\<lparr>mutex = False, map' = Map.empty\<rparr>,
                      \<lparr>mutex = False, map' = [5 :: 32 word \<mapsto> 2 :: 32 word]\<rparr>]\<rparr>
        = Inr (result,
          \<lparr>buckets = [\<lparr>mutex = False, map' = Map.empty\<rparr>,
                      \<lparr>mutex = False, map' = [5 \<mapsto> 2]\<rparr>]\<rparr>)
        \<and> result 5 = Some 2 \<and> result 7 = None)"
proof -
  let ?init = "\<lparr>buckets = [\<lparr>mutex = False, map' = Map.empty\<rparr>,
                         \<lparr>mutex = False, map' = (Map.empty :: 32 word \<rightharpoonup> 32 word)\<rparr>]\<rparr>"
  let ?cm = "\<lparr>buckets = [\<lparr>mutex = False, map' = Map.empty\<rparr>,
                      \<lparr>mutex = False, map' = [5 :: 32 word \<mapsto> 2 :: 32 word]\<rparr>]\<rparr>"
  let ?ths = "[\<lparr>pc = Idle, todo = []\<rparr>, \<lparr>pc = Idle, todo = [] :: 32 word list\<rparr>]"
  let ?keyss = "[[5 :: 32 word], [5]]"
  let ?sched = "[0, 1, 0, 1, 0, 0, 0, 0, 1, 1, 1, 1, 1] :: nat list"
  have pos: "(0 :: 64 word) < 2" by simp
  have ctor: "ConcurrentMap_ctor 2 = Inr ?init"
    by (simp add: ConcurrentMap_ctor_def replicate_2)
  have small: "\<forall>key. increments ?keyss key < 2 ^ 31"
    by (simp add: increments_def)
  have fin: "run_schedule int_int ?sched (spawn ?keyss, ?init) = (?ths, ?cm)"
    by (simp add: thread_defs)
  have f: "all_finished ?ths" by (simp add: all_finished_def finished_def)
  from RunConcurrentUpdates_no_lost_update [OF pos ctor small fin] f
  have "BuildOrdinaryMap ?cm
      = Inr (\<lambda>key. if increments ?keyss key = 0 then None
                   else Some (word_of_nat (increments ?keyss key)), ?cm)"
    by (elim conjE) simp
  moreover have "(\<lambda>key. if increments ?keyss key = 0 then None
                   else Some (word_of_nat (increments ?keyss key) :: 32 word)) 5 = Some 2"
    "(\<lambda>key. if increments ?keyss key = 0 then None
                   else Some (word_of_nat (increments ?keyss key) :: 32 word)) 7 = None"
    by (simp_all add: increments_def)
  ultimately show ?thesis
    using pos ctor fin f by (intro conjI exI) 
qed

text \<open>
  \<^bold>\<open>C9\<close>. A map constructed with \<open>n\<close> buckets has \<open>n\<close> buckets after every sequence of
  accesses, erasures and snapshots that returns; with \<open>n > 0\<close> every sequence returns.
\<close>

theorem bucket_count_fixed:
  "(0 < n \<longrightarrow> (\<exists>cm. construct_and_run T n ops = Inr cm))
   \<and> (\<forall>cm. construct_and_run T n ops = Inr cm \<longrightarrow> length (buckets cm) = unat n)"
proof (intro conjI allI impI)
  assume "0 < n"
  from construct_and_run_constructed [OF this, of T ops]
  show "\<exists>cm. construct_and_run T n ops = Inr cm" by blast
next
  fix cm assume "construct_and_run T n ops = Inr cm"
  then show "length (buckets cm) = unat n"
    by (auto simp: construct_and_run_def ConcurrentMap_ctor_def dest!: run_length)
qed

theorem bucket_count_fixed_witness:
  "(0 :: 64 word) < 3 \<and>
   (\<exists>cm. construct_and_run \<lparr>Key_is_signed = True, Value_init = 0 :: 32 word\<rparr> 3
            [Access_op (- 1 :: 32 word) (\<lambda>v. v + 1), Erase_op 7, Snapshot_op, Access_op 8 id] = Inr cm
      \<and> length (buckets cm) = 3)"
  using bucket_count_fixed
    [of 3 "\<lparr>Key_is_signed = True, Value_init = 0 :: 32 word\<rparr>"
        "[Access_op (- 1 :: 32 word) (\<lambda>v. v + 1), Erase_op 7, Snapshot_op, Access_op 8 id]"]
  by auto

text \<open>
  \<^bold>\<open>C10\<close>. On a map constructed with \<open>n > 0\<close> buckets, in every state it reaches and for
  every key, \<^verbatim>\<open>buckets_.size()\<close> is not zero and \<^verbatim>\<open>GetBucket\<close> returns an index
  inside the vector; \<^verbatim>\<open>operator[]\<close> and \<^verbatim>\<open>erase\<close>, which call it, return without a
  fault.
\<close>

theorem GetBucket_in_bounds:
  assumes "0 < n"
  shows "\<exists>cm i. construct_and_run T n ops = Inr cm
           \<and> GetBucket T key cm = Inr i \<and> i < length (buckets cm)
           \<and> (word_of_nat (length (buckets cm)) :: 64 word) \<noteq> 0
           \<and> (\<exists>a cm1. operator_subscript T key cm = Inr (a, cm1) \<and> guard a = i)
           \<and> (\<exists>cm2. erase T key cm = Inr cm2)"
proof -
  from construct_and_run_constructed [OF assms, of T ops]
  obtain cm where r: "construct_and_run T n ops = Inr cm" and c: "constructed T n cm"
    by blast
  have len: "length (buckets cm) = unat n" and q: "quiescent cm"
    using c by (simp_all add: constructed_def)
  let ?i = "partitionIndex (Key_is_signed T) key (unat n)"
  have gb: "GetBucket T key cm = Inr ?i" and lt: "?i < length (buckets cm)"
    using GetBucket_partitionIndex [OF len assms] len by simp_all
  have free: "\<not> mutex (buckets cm ! ?i)" using q lt by (rule quiescent_nth)
  have nz: "(word_of_nat (length (buckets cm)) :: 64 word) \<noteq> 0"
    using assms len by auto
  have acc: "\<exists>a cm1. operator_subscript T key cm = Inr (a, cm1) \<and> guard a = ?i"
    by (simp add: operator_subscript_def gb Access_ctor_def lock_guard_ctor_free [OF free])
  have er: "\<exists>cm2. erase T key cm = Inr cm2"
    by (simp add: erase_quiescent [OF len assms q])
  show ?thesis using r gb lt nz acc er by blast
qed

theorem GetBucket_in_bounds_witness:
  "(0 :: 64 word) < 100 \<and>
   (\<exists>cm i. construct_and_run \<lparr>Key_is_signed = False, Value_init = ''''\<rparr> 100
            [Access_op (250 :: 64 word) (\<lambda>s. s @ ''a'')] = Inr cm
      \<and> GetBucket \<lparr>Key_is_signed = False, Value_init = ''''\<rparr> (1234 :: 64 word) cm = Inr i
      \<and> i < length (buckets cm))"
  using GetBucket_in_bounds
    [of 100 "\<lparr>Key_is_signed = False, Value_init = ''''\<rparr>"
        "[Access_op (250 :: 64 word) (\<lambda>s. s @ ''a'')]" 1234]
  by auto

end
